theory Spec2Isabelle
  imports Complex_Main
begin

section \<open>The time-series table\<close>

text \<open>
  A row of the table carries the three metrics of \<^verbatim>\<open>build_cluster_timeseries\<close>
  (\<^verbatim>\<open>emob_timeseries.py\<close>, lines 247-251). The table is the data frame: the list of
  rows in index order, each paired with its index timestamp. Timestamps are whole minutes
  counted from 00:00 on January 1 of the target year. Energies are Python floats; they are
  read as real numbers, so rounding error of floating-point addition is outside the model.
\<close>

record row =
  available_capacity_kWh :: real
  energy_demand_kWh :: real
  rest_energy_kWh :: real

type_synonym table = "(int \<times> row) list"

definition capacity_column :: "table \<Rightarrow> real list" where
  "capacity_column df = map (\<lambda>(t, r). available_capacity_kWh r) df"

definition demand_of :: "table \<Rightarrow> real list" where
  "demand_of df = map (\<lambda>(t, r). energy_demand_kWh r) df"

definition rest_of :: "table \<Rightarrow> real list" where
  "rest_of df = map (\<lambda>(t, r). rest_energy_kWh r) df"

definition write_demand :: "table \<Rightarrow> real list \<Rightarrow> table" where
  "write_demand df col = map2 (\<lambda>(t, r) v. (t, r\<lparr>energy_demand_kWh := v\<rparr>)) df col"

definition write_rest :: "table \<Rightarrow> real list \<Rightarrow> table" where
  "write_rest df col = map2 (\<lambda>(t, r) v. (t, r\<lparr>rest_energy_kWh := v\<rparr>)) df col"

section \<open>Block consolidation\<close>

text \<open>
  \<^verbatim>\<open>_set_energy_demand_at_block_end\<close> (lines 327-377) and
  \<^verbatim>\<open>_set_rest_energy_at_block_start\<close> (lines 380-430) find the blocks with the same
  code. The index of the table is strictly ascending, so a label of the index is identified
  with its position: \<^verbatim>\<open>df.index[mask]\<close> is the list of positions where the mask holds,
  \<^verbatim>\<open>Index.union\<close> is the sorted union without duplicates, and the comparisons
  \<^verbatim>\<open>df.index >= start\<close>, \<^verbatim>\<open>df.index <= end\<close> compare positions.
\<close>

definition has_capacity :: "table \<Rightarrow> bool list" where
  "has_capacity df = map (\<lambda>(t, r). available_capacity_kWh r > 0) df"

definition astype_int :: "bool list \<Rightarrow> int list" where
  "astype_int bs = map (\<lambda>b. if b then 1 else 0) bs"

text \<open>
  \<^verbatim>\<open>Series.diff()\<close>: the first entry is NaN (here \<open>None\<close>), every later entry is the
  difference to its predecessor.
\<close>

fun diff_from :: "int \<Rightarrow> int list \<Rightarrow> int option list" where
  "diff_from p [] = []"
| "diff_from p (x # xs) = Some (x - p) # diff_from x xs"

fun diff :: "int list \<Rightarrow> int option list" where
  "diff [] = []"
| "diff (x # xs) = None # diff_from x xs"

text \<open>\<^verbatim>\<open>df.index[mask]\<close>, the positions counted from \<open>k\<close>.\<close>

fun index_where :: "nat \<Rightarrow> bool list \<Rightarrow> nat list" where
  "index_where k [] = []"
| "index_where k (m # ms) = (if m then k # index_where (Suc k) ms else index_where (Suc k) ms)"

text \<open>\<^verbatim>\<open>Series.shift(-1, fill_value=False)\<close>.\<close>

definition shift_back :: "bool list \<Rightarrow> bool list" where
  "shift_back ms = (if ms = [] then [] else tl ms @ [False])"

definition index_union :: "nat list \<Rightarrow> nat list \<Rightarrow> nat list" where
  "index_union xs ys = sort (remdups (xs @ ys))"

text \<open>Lines 344-347 and 357-359: the transitions from 0 to 1, and the first row if it has capacity.\<close>

definition block_starts :: "bool list \<Rightarrow> nat list" where
  "block_starts hc =
     (let capacity_diff = diff (astype_int hc);
          starts = index_where 0 (map (\<lambda>d. d = Some 1) capacity_diff)
      in if length hc > 0 \<and> hd hc then index_union [0] starts else starts)"

text \<open>
  Lines 349-355 and 361-363: the transitions from 1 to 0, moved one row back, and the last
  row if it has capacity.
\<close>

definition block_ends :: "bool list \<Rightarrow> nat list" where
  "block_ends hc =
     (let capacity_diff = diff (astype_int hc);
          block_end_indices = map (\<lambda>d. d = Some (- 1)) capacity_diff;
          ends = (if list_ex id block_end_indices
                  then index_where 0 (shift_back block_end_indices) else [])
      in if length hc > 0 \<and> last hc then index_union ends [length hc - 1] else ends)"

text \<open>
  Lines 372-373 and 425-426: \<^verbatim>\<open>original[block_mask].sum()\<close> with
  \<^verbatim>\<open>block_mask = (df.index >= start) & (df.index <= end) & has_capacity\<close>. The sum
  of a float64 column rounds its additions, so it is not the sum of real numbers: the
  column sum is the parameter \<open>fsum\<close>, which takes the selected values in index order.
\<close>

definition block_sum :: "(real list \<Rightarrow> real) \<Rightarrow> bool list \<Rightarrow> real list \<Rightarrow> nat \<Rightarrow> nat \<Rightarrow> real" where
  "block_sum fsum hc original s e =
     fsum (map (\<lambda>k. original ! k)
               (filter (\<lambda>k. s \<le> k \<and> k \<le> e \<and> hc ! k) [0..<length original]))"

text \<open>
  The loops of lines 366-377 and 419-430. Both guard the write with \<^verbatim>\<open>total > 0\<close>;
  the demand total goes to the row \<^verbatim>\<open>end\<close>, the rest-energy total to the row
  \<^verbatim>\<open>start\<close>.
\<close>

definition demand_loop ::
    "(real list \<Rightarrow> real) \<Rightarrow> bool list \<Rightarrow> real list \<Rightarrow> nat list \<Rightarrow> nat list \<Rightarrow> real list \<Rightarrow> real list" where
  "demand_loop fsum hc original starts ends col =
     fold (\<lambda>i c. if i < length ends
                  then (let s = starts ! i; e = ends ! i;
                            total = block_sum fsum hc original s e
                        in if total > 0 then c[e := total] else c)
                  else c)
          [0..<length starts] col"

definition rest_loop ::
    "(real list \<Rightarrow> real) \<Rightarrow> bool list \<Rightarrow> real list \<Rightarrow> nat list \<Rightarrow> nat list \<Rightarrow> real list \<Rightarrow> real list" where
  "rest_loop fsum hc original starts ends col =
     fold (\<lambda>i c. if i < length ends
                  then (let s = starts ! i; e = ends ! i;
                            total = block_sum fsum hc original s e
                        in if total > 0 then c[s := total] else c)
                  else c)
          [0..<length starts] col"

definition set_energy_demand_at_block_end :: "(real list \<Rightarrow> real) \<Rightarrow> table \<Rightarrow> table" where
  "set_energy_demand_at_block_end fsum df =
     (let original_demand = demand_of df;
          hc = has_capacity df;
          col = demand_loop fsum hc original_demand (block_starts hc) (block_ends hc)
                  (replicate (length df) 0)
      in write_demand df col)"

definition set_rest_energy_at_block_start :: "(real list \<Rightarrow> real) \<Rightarrow> table \<Rightarrow> table" where
  "set_rest_energy_at_block_start fsum df =
     (let original_rest = rest_of df;
          hc = has_capacity df;
          col = rest_loop fsum hc original_rest (block_starts hc) (block_ends hc)
                  (replicate (length df) 0)
      in write_rest df col)"

text \<open>
  Lines 317-318: the demand pass, then the rest-energy pass. \<open>consolidate\<close> is the
  consolidator whose column sum adds without rounding.
\<close>

definition consolidate_by :: "(real list \<Rightarrow> real) \<Rightarrow> table \<Rightarrow> table" where
  "consolidate_by fsum df =
     set_rest_energy_at_block_start fsum (set_energy_demand_at_block_end fsum df)"

definition consolidate :: "table \<Rightarrow> table" where
  "consolidate df = consolidate_by sum_list df"

text \<open>
  What the statements below ask of a column sum; both hold of a sum of floating-point
  numbers: the sum of numbers that are not negative is not negative, and the sum of a list
  whose entries are 0 but for one is that entry (adding 0 does not round).
\<close>

definition nonneg_sum :: "(real list \<Rightarrow> real) \<Rightarrow> bool" where
  "nonneg_sum fsum \<longleftrightarrow> (\<forall>xs. (\<forall>x \<in> set xs. 0 \<le> x) \<longrightarrow> 0 \<le> fsum xs)"

definition exact_on_padded :: "(real list \<Rightarrow> real) \<Rightarrow> bool" where
  "exact_on_padded fsum \<longleftrightarrow> (\<forall>n m v. fsum (replicate n 0 @ v # replicate m 0) = v)"

subsection \<open>Maximal runs\<close>

text \<open>
  A block of the specification: a maximal run \<open>s..e\<close> of consecutive rows with positive
  capacity.
\<close>

definition maxrun :: "bool list \<Rightarrow> nat \<Rightarrow> nat \<Rightarrow> bool" where
  "maxrun hc s e \<longleftrightarrow>
     s \<le> e \<and> e < length hc \<and> (\<forall>j. s \<le> j \<and> j \<le> e \<longrightarrow> hc ! j) \<and>
     (s = 0 \<or> \<not> hc ! (s - 1)) \<and> (Suc e = length hc \<or> \<not> hc ! Suc e)"

text \<open>
  A single pass over the mask that emits the runs as pairs; \<open>cur\<close> is the start of the
  run that is open at position \<open>k\<close>. The proofs relate the starts and ends of the source
  to this pass.
\<close>

fun scan :: "nat \<Rightarrow> nat option \<Rightarrow> bool list \<Rightarrow> (nat \<times> nat) list" where
  "scan k None [] = []"
| "scan k (Some s) [] = [(s, k - 1)]"
| "scan k None (b # bs) = (if b then scan (Suc k) (Some k) bs else scan (Suc k) None bs)"
| "scan k (Some s) (b # bs) =
     (if b then scan (Suc k) (Some s) bs else (s, k - 1) # scan (Suc k) None bs)"

definition blocks :: "bool list \<Rightarrow> (nat \<times> nat) list" where
  "blocks hc = scan 0 None hc"

definition scan_inv :: "bool list \<Rightarrow> nat \<Rightarrow> nat option \<Rightarrow> bool" where
  "scan_inv hc k cur \<longleftrightarrow>
     k \<le> length hc \<and>
     (case cur of
        None \<Rightarrow> k = 0 \<or> \<not> hc ! (k - 1)
      | Some s \<Rightarrow> s < k \<and> (\<forall>j. s \<le> j \<and> j < k \<longrightarrow> hc ! j) \<and> (s = 0 \<or> \<not> hc ! (s - 1)))"

definition place :: "(nat \<times> nat \<Rightarrow> nat) \<Rightarrow> (nat \<times> nat \<Rightarrow> real) \<Rightarrow> (nat \<times> nat) list \<Rightarrow> real list \<Rightarrow> real list" where
  "place sel tot B col = fold (\<lambda>b c. if tot b > 0 then c[sel b := tot b] else c) B col"

definition demand_column :: "(real list \<Rightarrow> real) \<Rightarrow> bool list \<Rightarrow> real list \<Rightarrow> real list" where
  "demand_column fsum hc original =
     demand_loop fsum hc original (block_starts hc) (block_ends hc)
       (replicate (length original) 0)"

definition rest_column :: "(real list \<Rightarrow> real) \<Rightarrow> bool list \<Rightarrow> real list \<Rightarrow> real list" where
  "rest_column fsum hc original =
     rest_loop fsum hc original (block_starts hc) (block_ends hc)
       (replicate (length original) 0)"

text \<open>The raw values \<open>d_1..d_k\<close> of the rows \<open>s..e\<close> of a column, in index order.\<close>

definition block_values :: "real list \<Rightarrow> nat \<Rightarrow> nat \<Rightarrow> real list" where
  "block_values xs s e = map (\<lambda>k. xs ! k) [s..<Suc e]"

section \<open>Time utilities\<close>

text \<open>
  A time of day (\<^verbatim>\<open>datetime.time\<close>) is its minute of the day: \<^verbatim>\<open>hhmm\<close> (lines 47-52)
  parses hours and minutes only, and every offset is a whole number of minutes. A calendar
  day is its number within the target year, January 1 being day 0; a day before or after
  the year has a negative number or one not below the length of the year. A timestamp is
  \<open>1440 * day + minute\<close>.
\<close>

definition hm :: "nat \<Rightarrow> nat \<Rightarrow> nat" where
  "hm h m = 60 * h + m"

definition combine :: "int \<Rightarrow> nat \<Rightarrow> int" where
  "combine day t = day * 1440 + int t"

definition date_of :: "int \<Rightarrow> int" where
  "date_of ts = ts div 1440"

definition time_of :: "int \<Rightarrow> nat" where
  "time_of ts = nat (ts mod 1440)"



definition days_before_year :: "int \<Rightarrow> int" where
  "days_before_year y = (y - 1) * 365 + (y - 1) div 4 - (y - 1) div 100 + (y - 1) div 400"

definition epoch_minutes :: "int \<Rightarrow> int" where
  "epoch_minutes year = (days_before_year year - days_before_year 1970) * 1440"

text \<open>
  What the libraries raise. \<^verbatim>\<open>datetime\<close> knows the days with the ordinals 1
  (0001-01-01) to 3652059 (9999-12-31) and raises \<^verbatim>\<open>OverflowError\<close> beyond them, as
  \<^verbatim>\<open>timedelta\<close> does for more than 999999999 days; a pandas timestamp counts
  nanoseconds from 1970 in 64 bits, which is at most 153722867 minutes either way, and
  raises \<^verbatim>\<open>OutOfBoundsDatetime\<close> beyond; \<^verbatim>\<open>np.random.seed\<close> raises
  \<^verbatim>\<open>ValueError\<close> for a seed outside \<open>0..2^32-1\<close>.
\<close>

datatype error = OverflowError | OutOfBoundsDatetime | ValueError

definition bind_err :: "error + 'a \<Rightarrow> ('a \<Rightarrow> error + 'b) \<Rightarrow> error + 'b" where
  "bind_err m f = (case m of Inl e \<Rightarrow> Inl e | Inr x \<Rightarrow> f x)"

definition max_ordinal :: int where
  "max_ordinal = 3652059"

definition timedelta_minutes :: "int \<Rightarrow> error + int" where
  "timedelta_minutes m =
     (if - 999999999 \<le> m div 1440 \<and> m div 1440 \<le> 999999999 then Inr m else Inl OverflowError)"

text \<open>\<^verbatim>\<open>datetime + timedelta\<close>; a datetime is the ordinal of its day and its minute.\<close>

definition datetime_add_minutes :: "int \<times> nat \<Rightarrow> int \<Rightarrow> error + int \<times> nat" where
  "datetime_add_minutes dt minutes =
     (let total = fst dt * 1440 + int (snd dt) + minutes;
          d = total div 1440
      in if 1 \<le> d \<and> d \<le> max_ordinal then Inr (d, nat (total mod 1440))
         else Inl OverflowError)"

text \<open>
  \<^verbatim>\<open>apply_time_deviation\<close> (lines 212-226) puts the base time on today's date, adds the
  offset and keeps the time of day of the result; \<open>today\<close> is the ordinal of
  \<^verbatim>\<open>date.today()\<close>.
\<close>

definition apply_time_deviation :: "int \<Rightarrow> nat \<Rightarrow> int \<Rightarrow> error + nat" where
  "apply_time_deviation today base_time deviation_minutes =
     (let base_dt = (today, base_time)
      in bind_err (timedelta_minutes deviation_minutes) (\<lambda>td.
         bind_err (datetime_add_minutes base_dt td) (\<lambda>new_dt.
         Inr (snd new_dt))))"

text \<open>
  The offsets that \<^verbatim>\<open>apply_time_deviation\<close> can add to a base time on today's date: the
  ones \<^verbatim>\<open>timedelta\<close> accepts, with a result within the calendar of \<^verbatim>\<open>datetime\<close>.
\<close>

definition in_datetime_range :: "int \<Rightarrow> nat \<Rightarrow> int \<Rightarrow> bool" where
  "in_datetime_range today base_time deviation_minutes \<longleftrightarrow>
     - 999999999 \<le> deviation_minutes div 1440 \<and> deviation_minutes div 1440 \<le> 999999999 \<and>
     1 \<le> (today * 1440 + int base_time + deviation_minutes) div 1440 \<and>
     (today * 1440 + int base_time + deviation_minutes) div 1440 \<le> max_ordinal"

text \<open>
  \<^verbatim>\<open>date + timedelta(days=k)\<close> for a day of the target year, and
  \<^verbatim>\<open>pd.Timestamp.combine(date, time)\<close>.
\<close>

definition date_add_days :: "int \<Rightarrow> int \<Rightarrow> int \<Rightarrow> error + int" where
  "date_add_days year day k =
     (let ordinal = days_before_year year + day + 1 + k
      in if - 999999999 \<le> k \<and> k \<le> 999999999 \<and> 1 \<le> ordinal \<and> ordinal \<le> max_ordinal
         then Inr (day + k) else Inl OverflowError)"

definition timestamp_combine :: "int \<Rightarrow> int \<Rightarrow> nat \<Rightarrow> error + int" where
  "timestamp_combine year day t =
     (let m = epoch_minutes year + combine day t
      in if - 153722867 \<le> m \<and> m \<le> 153722867 then Inr (combine day t)
         else Inl OutOfBoundsDatetime)"

text \<open>
  Lines 462-467 and 523-529: the departure and return timestamps of one vehicle. The
  multi-day variant takes \<^verbatim>\<open>day + offset\<close> when \<^verbatim>\<open>offset\<close> is not zero.
\<close>

definition tour_times ::
    "int \<Rightarrow> int \<Rightarrow> int \<Rightarrow> nat \<Rightarrow> nat \<Rightarrow> int \<Rightarrow> int \<Rightarrow> error + int \<times> int" where
  "tour_times today year day base_leave base_ret leave_dev ret_dev =
     bind_err (apply_time_deviation today base_leave leave_dev) (\<lambda>actual_leave.
     bind_err (apply_time_deviation today base_ret ret_dev) (\<lambda>actual_ret.
     bind_err (timestamp_combine year day actual_leave) (\<lambda>lt.
     bind_err (if actual_ret > actual_leave then Inr day else date_add_days year day 1) (\<lambda>bd.
     bind_err (timestamp_combine year bd actual_ret) (\<lambda>rt.
     Inr (lt, rt))))))"

definition multiday_times ::
    "int \<Rightarrow> int \<Rightarrow> int \<Rightarrow> nat \<Rightarrow> nat \<Rightarrow> int \<Rightarrow> int \<Rightarrow> int \<Rightarrow> error + int \<times> int" where
  "multiday_times today year day base_leave base_ret offset leave_dev ret_dev =
     bind_err (apply_time_deviation today base_leave leave_dev) (\<lambda>actual_leave.
     bind_err (apply_time_deviation today base_ret ret_dev) (\<lambda>actual_ret.
     bind_err (timestamp_combine year day actual_leave) (\<lambda>lt.
     bind_err (if offset \<noteq> 0 then date_add_days year day offset
               else (if actual_ret > actual_leave then Inr day else date_add_days year day 1))
       (\<lambda>bd.
     bind_err (timestamp_combine year bd actual_ret) (\<lambda>rt.
     Inr (lt, rt))))))"

section \<open>Time deviations\<close>

text \<open>
  The configuration \<^verbatim>\<open>zeitverzerrung\<close> is a dictionary whose four keys are all optional;
  \<^verbatim>\<open>typ\<close> is \<^verbatim>\<open>"normal"\<close> or \<^verbatim>\<open>"uniform"\<close> (lines 106-108).
\<close>

datatype dist_typ = Normal | Uniform

record tz_config =
  tz_typ :: "dist_typ option"
  tz_stddev_minuten :: "real option"
  tz_max_abweichung_minuten :: "real option"
  tz_seed :: "int option"

text \<open>
  The random generator of numpy is not part of the repository; it is a parameter. Its
  state is process-wide: \<^verbatim>\<open>np.random.seed\<close> sets the state from the seed, and a draw of
  \<open>n\<close> samples returns the array, given by its entries \<open>0..n-1\<close>, and the state it leaves.
  \<^verbatim>\<open>random.seed\<close> (line 197) seeds a generator nothing draws from.
\<close>

record 'g np_random =
  np_seed :: "int \<Rightarrow> 'g"
  np_uniform :: "real \<Rightarrow> real \<Rightarrow> nat \<Rightarrow> 'g \<Rightarrow> (nat \<Rightarrow> real) \<times> 'g"
  np_normal :: "real \<Rightarrow> real \<Rightarrow> nat \<Rightarrow> 'g \<Rightarrow> (nat \<Rightarrow> real) \<times> 'g"

text \<open>\<^verbatim>\<open>round\<close> of a float: to the nearest integer, a tie to the even one.\<close>

definition py_round :: "real \<Rightarrow> int" where
  "py_round x =
     (let f = \<lfloor>x\<rfloor>; d = x - of_int f
      in if d < 1 / 2 then f else if d > 1 / 2 then f + 1 else if even f then f else f + 1)"

text \<open>\<^verbatim>\<open>np.clip(a, lo, hi)\<close> is \<^verbatim>\<open>minimum(maximum(a, lo), hi)\<close>.\<close>

definition np_clip :: "real \<Rightarrow> real \<Rightarrow> real \<Rightarrow> real" where
  "np_clip a lo hi = min (max a lo) hi"

definition max_dev_of :: "tz_config \<Rightarrow> real" where
  "max_dev_of config =
     (case tz_max_abweichung_minuten config of
        Some m \<Rightarrow> m
      | None \<Rightarrow> if tz_typ config = Some Uniform then 15 else 30)"

text \<open>\<^verbatim>\<open>generate_time_deviations\<close>, lines 189-209.\<close>

definition generate_time_deviations ::
    "'g np_random \<Rightarrow> nat \<Rightarrow> tz_config \<Rightarrow> 'g \<Rightarrow> int list \<times> 'g" where
  "generate_time_deviations np n_vehicles config g =
     (let g0 = (case tz_seed config of Some s \<Rightarrow> np_seed np s | None \<Rightarrow> g)
      in if tz_typ config = Some Uniform
         then
           (let max_dev = max_dev_of config;
                (deviations, g1) = np_uniform np (- max_dev) max_dev n_vehicles g0
            in (map (\<lambda>i. py_round (deviations i)) [0..<n_vehicles], g1))
         else
           (let stddev = (case tz_stddev_minuten config of Some s \<Rightarrow> s | None \<Rightarrow> 10);
                max_dev = max_dev_of config;
                (deviations, g1) = np_normal np 0 stddev n_vehicles g0
            in (map (\<lambda>i. py_round (np_clip (deviations i) (- max_dev) max_dev))
                  [0..<n_vehicles], g1)))"

text \<open>
  Lines 453-454 and 514-515: both schedule simulators draw the departure deviations and
  then the return deviations, each with a call of its own.
\<close>

definition draw_deviations ::
    "'g np_random \<Rightarrow> nat \<Rightarrow> tz_config \<Rightarrow> 'g \<Rightarrow> int list \<times> int list \<times> 'g" where
  "draw_deviations np n config g =
     (let (leave_deviations, g1) = generate_time_deviations np n config g;
          (return_deviations, g2) = generate_time_deviations np n config g1
      in (leave_deviations, return_deviations, g2))"

text \<open>
  A deterministic generator to run the model on concrete inputs: the state is a counter,
  the \<open>i\<close>-th uniform sample steps through ten points of \<open>[low, high)\<close> and the \<open>i\<close>-th
  normal sample through seven points around the mean.
\<close>

definition counter_random :: "nat np_random" where
  "counter_random =
     \<lparr>np_seed = (\<lambda>s. nat \<bar>s\<bar>),
      np_uniform = (\<lambda>low high n g.
         (\<lambda>i. low + (high - low) * real ((g + i) mod 10) / 10, g + n)),
      np_normal = (\<lambda>mu sigma n g.
         (\<lambda>i. mu + sigma * (real ((g + i) mod 7) - 3), g + n))\<rparr>"

definition uniform_in_range :: "'g np_random \<Rightarrow> bool" where
  "uniform_in_range np \<longleftrightarrow>
     (\<forall>low high n g i. low \<le> high \<longrightarrow>
        low \<le> fst (np_uniform np low high n g) i \<and> fst (np_uniform np low high n g) i \<le> high)"

section \<open>Blocks are the maximal runs\<close>

lemma index_where_bounds: "x \<in> set (index_where k ms) \<Longrightarrow> k \<le> x \<and> x < k + length ms"
  by (induction ms arbitrary: k) (fastforce split: if_splits)+

lemma index_where_sorted: "sorted_wrt (<) (index_where k ms)"
proof (induction ms arbitrary: k)
  case Nil
  then show ?case by simp
next
  case (Cons m ms)
  have "\<forall>x \<in> set (index_where (Suc k) ms). k < x"
    using index_where_bounds by fastforce
  with Cons show ?case by simp
qed

lemma index_where_append_False: "index_where k (ms @ [False]) = index_where k ms"
  by (induction ms arbitrary: k) auto

lemma index_where_no_True: "\<not> list_ex id ms \<Longrightarrow> index_where k ms = []"
  by (induction ms arbitrary: k) auto

lemma strict_sorted_sort_remdups:
  "sorted_wrt (<) (xs :: nat list) \<Longrightarrow> sort (remdups xs) = xs"
proof -
  assume a: "sorted_wrt (<) xs"
  then have "distinct xs" and "sorted xs"
    using strict_sorted_iff by auto
  then show ?thesis
    by (simp add: distinct_remdups_id sorted_sort_id)
qed

lemma index_union_front:
  "sorted_wrt (<) xs \<Longrightarrow> \<forall>x \<in> set xs. a < x \<Longrightarrow> index_union [a] xs = a # xs"
  unfolding index_union_def by (rule trans [OF _ strict_sorted_sort_remdups]) auto

lemma index_union_back:
  "sorted_wrt (<) xs \<Longrightarrow> \<forall>x \<in> set xs. x < a \<Longrightarrow> index_union xs [a] = xs @ [a]"
  unfolding index_union_def
  by (rule strict_sorted_sort_remdups) (auto simp: sorted_wrt_append)

lemma scan_fst:
  "map fst (scan k cur xs) =
     (case cur of Some s \<Rightarrow> [s] | None \<Rightarrow> []) @
     index_where k (map (\<lambda>d. d = Some 1) (diff_from (if cur = None then 0 else 1) (astype_int xs)))"
  by (induction xs arbitrary: k cur) (auto simp: astype_int_def split: option.splits)

lemma scan_snd:
  "map snd (scan (Suc k) cur xs) =
     index_where k (map (\<lambda>d. d = Some (- 1)) (diff_from (if cur = None then 0 else 1) (astype_int xs))) @
     (if last ((cur \<noteq> None) # xs) then [k + length xs] else [])"
  by (induction xs arbitrary: k cur) (auto simp: astype_int_def split: option.splits)

lemma diff_astype_Cons:
  "diff (astype_int (b # bs)) = None # diff_from (if b then 1 else 0) (astype_int bs)"
  by (simp add: astype_int_def)

lemma length_diff_from: "length (diff_from p xs) = length xs"
  by (induction xs arbitrary: p) auto

lemma shifted_ends:
  "(if list_ex id (False # E) then index_where 0 (shift_back (False # E)) else []) = index_where 0 E"
  by (auto simp: shift_back_def index_where_append_False index_where_no_True)

lemma block_starts_scan: "block_starts hc = map fst (scan 0 None hc)"
proof (cases hc)
  case Nil
  then show ?thesis by (simp add: block_starts_def astype_int_def)
next
  case (Cons b bs)
  let ?X = "index_where (Suc 0) (map (\<lambda>d. d = Some 1) (diff_from (if b then 1 else 0) (astype_int bs)))"
  have srt: "sorted_wrt (<) ?X" by (rule index_where_sorted)
  have bnd: "\<forall>x \<in> set ?X. 0 < x" using index_where_bounds by fastforce
  have bs: "block_starts hc = (if b then index_union [0] ?X else ?X)"
    using Cons by (simp add: block_starts_def diff_astype_Cons)
  have sc: "map fst (scan 0 None hc) = (if b then 0 # ?X else ?X)"
    using Cons by (simp add: scan_fst)
  show ?thesis
    unfolding bs sc using index_union_front [OF srt bnd] by (cases b) simp_all
qed

lemma block_ends_scan: "block_ends hc = map snd (scan 0 None hc)"
proof (cases hc)
  case Nil
  then show ?thesis by (simp add: block_ends_def astype_int_def)
next
  case (Cons b bs)
  let ?E = "map (\<lambda>d. d = Some (- 1)) (diff_from (if b then 1 else 0) (astype_int bs))"
  let ?Y = "index_where 0 ?E"
  have len: "length ?E = length bs"
    by (simp add: length_diff_from astype_int_def)
  have srt: "sorted_wrt (<) ?Y" by (rule index_where_sorted)
  have bnd: "\<forall>x \<in> set ?Y. x < length bs" using index_where_bounds len by fastforce
  have sc: "map snd (scan 0 None hc) = ?Y @ (if last (b # bs) then [length bs] else [])"
    using Cons scan_snd [of 0 "if b then Some 0 else None" bs]
    by (auto split: if_splits)
  have be: "block_ends hc = (if last (b # bs) then index_union ?Y [length bs] else ?Y)"
    unfolding Cons block_ends_def Let_def diff_astype_Cons list.map
    by (simp only: shifted_ends option.simps) simp
  show ?thesis
    unfolding be sc using index_union_back [OF srt bnd] by (cases "last (b # bs)") simp_all
qed

lemma maxrun_le: "maxrun hc s e \<Longrightarrow> s \<le> e"
  and maxrun_less: "maxrun hc s e \<Longrightarrow> e < length hc"
  and maxrun_all: "maxrun hc s e \<Longrightarrow> s \<le> j \<Longrightarrow> j \<le> e \<Longrightarrow> hc ! j"
  and maxrun_start: "maxrun hc s e \<Longrightarrow> 0 < s \<Longrightarrow> \<not> hc ! (s - 1)"
  and maxrun_end: "maxrun hc s e \<Longrightarrow> Suc e < length hc \<Longrightarrow> \<not> hc ! Suc e"
  by (auto simp: maxrun_def)

lemma maxrun_unique:
  assumes m: "maxrun hc s e" and m': "maxrun hc s' e'"
    and j: "s \<le> j" "j \<le> e" "s' \<le> j" "j \<le> e'"
  shows "s = s' \<and> e = e'"
proof -
  have 1: "\<not> s < s'"
  proof
    assume l: "s < s'"
    have "hc ! (s' - 1)" by (rule maxrun_all [OF m]) (use l j in linarith)+
    moreover have "\<not> hc ! (s' - 1)" by (rule maxrun_start [OF m']) (use l in linarith)
    ultimately show False by simp
  qed
  have 2: "\<not> s' < s"
  proof
    assume l: "s' < s"
    have "hc ! (s - 1)" by (rule maxrun_all [OF m']) (use l j in linarith)+
    moreover have "\<not> hc ! (s - 1)" by (rule maxrun_start [OF m]) (use l in linarith)
    ultimately show False by simp
  qed
  have 3: "\<not> e < e'"
  proof
    assume l: "e < e'"
    have "hc ! Suc e" by (rule maxrun_all [OF m']) (use l j in linarith)+
    moreover have "\<not> hc ! Suc e"
      by (rule maxrun_end [OF m]) (use l maxrun_less [OF m'] in linarith)
    ultimately show False by simp
  qed
  have 4: "\<not> e' < e"
  proof
    assume l: "e' < e"
    have "hc ! Suc e'" by (rule maxrun_all [OF m]) (use l j in linarith)+
    moreover have "\<not> hc ! Suc e'"
      by (rule maxrun_end [OF m']) (use l maxrun_less [OF m] in linarith)
    ultimately show False by simp
  qed
  from 1 2 3 4 show ?thesis by simp
qed

lemma maxrun_pending:
  assumes "scan_inv hc k (Some s0)" "k = length hc \<or> \<not> hc ! k"
  shows "maxrun hc s0 (k - 1)"
proof -
  from assms(1) have "s0 < k" by (simp add: scan_inv_def)
  then obtain e0 where k: "k = Suc e0" by (cases k) auto
  show ?thesis
    using assms unfolding k scan_inv_def maxrun_def
    by (auto simp: less_Suc_eq_le)
qed

lemma pending_unique:
  assumes inv: "scan_inv hc k (Some s0)" and stop: "k = length hc \<or> \<not> hc ! k"
    and m: "maxrun hc s e" and e: "Suc e = k"
  shows "s = s0"
proof -
  have m0: "maxrun hc s0 (k - 1)" using inv stop by (rule maxrun_pending)
  have "k - 1 = e" using e by simp
  with m0 have m0': "maxrun hc s0 e" by simp
  from maxrun_unique [OF m m0', of e] maxrun_le [OF m] maxrun_le [OF m0']
  show ?thesis by simp
qed

lemma scan_inv_step_True:
  assumes "scan_inv hc k cur" "k < length hc" "hc ! k"
  shows "scan_inv hc (Suc k) (Some (case cur of None \<Rightarrow> k | Some s \<Rightarrow> s))"
  using assms by (auto simp: scan_inv_def less_Suc_eq split: option.splits)

lemma scan_inv_step_False:
  assumes "k < length hc" "\<not> hc ! k"
  shows "scan_inv hc (Suc k) None"
  using assms by (auto simp: scan_inv_def)

lemma drop_Cons_eq:
  assumes "b # bs = drop k hc"
  shows "k < length hc" "b = hc ! k" "bs = drop (Suc k) hc"
proof -
  show klt: "k < length hc" using assms by (metis drop_eq_Nil2 list.distinct(1) not_le)
  show "b = hc ! k" "bs = drop (Suc k) hc"
    using assms klt by (metis Cons_nth_drop_Suc list.inject)+
qed

lemma scan_sound:
  "scan_inv hc k cur \<Longrightarrow> xs = drop k hc \<Longrightarrow> (s, e) \<in> set (scan k cur xs) \<Longrightarrow> maxrun hc s e"
proof (induction xs arbitrary: k cur)
  case Nil
  then have k: "k = length hc" by (simp add: scan_inv_def)
  show ?case
  proof (cases cur)
    case None
    with Nil show ?thesis by simp
  next
    case (Some s0)
    with Nil have se: "s = s0" "e = k - 1" by simp_all
    have "maxrun hc s0 (k - 1)"
      by (rule maxrun_pending) (use Nil(1) Some k in auto)
    with se show ?thesis by simp
  qed
next
  case (Cons b bs)
  note d = drop_Cons_eq [OF Cons.prems(2)]
  show ?case
  proof (cases b)
    case True
    have inv': "scan_inv hc (Suc k) (Some (case cur of None \<Rightarrow> k | Some s \<Rightarrow> s))"
      by (rule scan_inv_step_True) (use Cons.prems(1) d True in auto)
    have "(s, e) \<in> set (scan (Suc k) (Some (case cur of None \<Rightarrow> k | Some s \<Rightarrow> s)) bs)"
      using Cons.prems(3) True by (cases cur) auto
    from Cons.IH [OF inv' d(3) this] show ?thesis .
  next
    case False
    have inv': "scan_inv hc (Suc k) None"
      by (rule scan_inv_step_False) (use d False in auto)
    show ?thesis
    proof (cases cur)
      case None
      with Cons.prems(3) False have "(s, e) \<in> set (scan (Suc k) None bs)" by simp
      from Cons.IH [OF inv' d(3) this] show ?thesis .
    next
      case (Some s0)
      from Cons.prems(3) Some False
      consider "s = s0" "e = k - 1" | "(s, e) \<in> set (scan (Suc k) None bs)" by auto
      then show ?thesis
      proof cases
        case 1
        have "maxrun hc s0 (k - 1)"
          by (rule maxrun_pending) (use Cons.prems(1) Some d False in auto)
        with 1 show ?thesis by simp
      next
        case 2
        from Cons.IH [OF inv' d(3) 2] show ?thesis .
      qed
    qed
  qed
qed

lemma scan_complete:
  "scan_inv hc k cur \<Longrightarrow> xs = drop k hc \<Longrightarrow> maxrun hc s e \<Longrightarrow> k \<le> Suc e \<Longrightarrow>
     (s, e) \<in> set (scan k cur xs)"
proof (induction xs arbitrary: k cur)
  case Nil
  then have k: "k = length hc" by (simp add: scan_inv_def)
  with Nil(4) maxrun_less [OF Nil(3)] have e: "Suc e = k" by simp
  show ?case
  proof (cases cur)
    case None
    have "hc ! e" by (rule maxrun_all [OF Nil(3)]) (use maxrun_le [OF Nil(3)] in auto)
    with Nil(1) None e show ?thesis by (auto simp: scan_inv_def)
  next
    case (Some s0)
    have "s = s0"
      by (rule pending_unique [OF _ _ Nil(3) e]) (use Nil(1) Some k in auto)
    with Some e show ?thesis by auto
  qed
next
  case (Cons b bs)
  note d = drop_Cons_eq [OF Cons.prems(2)]
  note m = Cons.prems(3)
  have he: "hc ! e" by (rule maxrun_all [OF m]) (use maxrun_le [OF m] in auto)
  show ?case
  proof (cases b)
    case True
    have inv': "scan_inv hc (Suc k) (Some (case cur of None \<Rightarrow> k | Some s \<Rightarrow> s))"
      by (rule scan_inv_step_True) (use Cons.prems(1) d True in auto)
    have "Suc e \<noteq> k"
    proof
      assume "Suc e = k"
      then have "\<not> hc ! k" using maxrun_end [OF m] d(1) by simp
      then show False using True d(2) by simp
    qed
    with Cons.prems(4) have "Suc k \<le> Suc e" by simp
    from Cons.IH [OF inv' d(3) m this] True show ?thesis by (cases cur) auto
  next
    case False
    have inv': "scan_inv hc (Suc k) None"
      by (rule scan_inv_step_False) (use d False in auto)
    have ek: "e \<noteq> k" using False d(2) he by auto
    show ?thesis
    proof (cases "Suc e = k")
      case True
      show ?thesis
      proof (cases cur)
        case None
        with Cons.prems(1) True he show ?thesis by (auto simp: scan_inv_def)
      next
        case (Some s0)
        have "s = s0"
          by (rule pending_unique [OF _ _ m True]) (use Cons.prems(1) Some d False in auto)
        with True Some False show ?thesis by auto
      qed
    next
      case ne: False
      with ek Cons.prems(4) have "Suc k \<le> Suc e" by simp
      from Cons.IH [OF inv' d(3) m this] False show ?thesis by (cases cur) auto
    qed
  qed
qed

lemma scan_snd_lower:
  "(s, e) \<in> set (scan k cur xs) \<Longrightarrow> (if cur = None then k \<le> e else k \<le> Suc e)"
  by (induction k cur xs rule: scan.induct) (fastforce split: if_splits)+

lemma scan_snd_sorted: "sorted_wrt (<) (map snd (scan k cur xs))"
proof (induction k cur xs rule: scan.induct)
  case (4 k s b bs)
  have "\<forall>e \<in> set (map snd (scan (Suc k) None bs)). k - 1 < e"
    using scan_snd_lower [of _ _ "Suc k" None bs] by fastforce
  with 4 show ?case by auto
qed auto

lemma scan_inv_0: "scan_inv hc 0 None"
  by (simp add: scan_inv_def)

lemma blocks_iff: "(s, e) \<in> set (blocks hc) \<longleftrightarrow> maxrun hc s e"
  unfolding blocks_def
  using scan_sound [OF scan_inv_0, of hc hc s e] scan_complete [OF scan_inv_0, of hc hc s e]
  by auto

lemma distinct_blocks_snd: "distinct (map snd (blocks hc))"
  unfolding blocks_def using scan_snd_sorted strict_sorted_iff by blast

lemma distinct_blocks_fst: "distinct (map fst (blocks hc))"
proof -
  have "distinct (blocks hc)"
    using distinct_blocks_snd distinct_map by blast
  moreover have "inj_on fst (set (blocks hc))"
  proof (rule inj_onI)
    fix x y assume "x \<in> set (blocks hc)" "y \<in> set (blocks hc)" "fst x = fst y"
    then have mx: "maxrun hc (fst x) (snd x)" and my: "maxrun hc (fst y) (snd y)"
      using blocks_iff by (metis prod.collapse)+
    from maxrun_unique [OF mx my, of "fst x"] \<open>fst x = fst y\<close> maxrun_le [OF mx] maxrun_le [OF my]
    have "snd x = snd y" by simp
    with \<open>fst x = fst y\<close> show "x = y" by (simp add: prod_eq_iff)
  qed
  ultimately show ?thesis by (simp add: distinct_map)
qed

section \<open>What the loops write\<close>

lemma fold_index:
  "fold (\<lambda>i. F (B ! i)) [0..<length B] c = fold F B c"
proof -
  have "fold F B c = fold F (map (\<lambda>i. B ! i) [0..<length B]) c"
    by (simp add: map_nth)
  also have "\<dots> = fold (\<lambda>i. F (B ! i)) [0..<length B] c"
    by (simp add: fold_map comp_def)
  finally show ?thesis by simp
qed

lemma length_blocks:
  "length (block_starts hc) = length (blocks hc)" "length (block_ends hc) = length (blocks hc)"
  by (simp_all add: block_starts_scan block_ends_scan blocks_def)

lemma nth_block_starts: "i < length (blocks hc) \<Longrightarrow> block_starts hc ! i = fst (blocks hc ! i)"
  and nth_block_ends: "i < length (blocks hc) \<Longrightarrow> block_ends hc ! i = snd (blocks hc ! i)"
  by (simp_all add: block_starts_scan block_ends_scan blocks_def)

lemma demand_loop_place:
  "demand_loop fsum hc original (block_starts hc) (block_ends hc) col =
     place snd (\<lambda>(s, e). block_sum fsum hc original s e) (blocks hc) col"
proof -
  let ?F = "\<lambda>b c. if (case b of (s, e) \<Rightarrow> block_sum fsum hc original s e) > 0
                   then c[snd b := (case b of (s, e) \<Rightarrow> block_sum fsum hc original s e)] else c"
  have "demand_loop fsum hc original (block_starts hc) (block_ends hc) col =
          fold (\<lambda>i. ?F (blocks hc ! i)) [0..<length (blocks hc)] col"
    unfolding demand_loop_def length_blocks
    by (rule fold_cong) (auto simp: nth_block_starts nth_block_ends length_blocks Let_def split_beta)
  also have "\<dots> = fold ?F (blocks hc) col" by (rule fold_index)
  finally show ?thesis by (simp add: place_def)
qed

lemma rest_loop_place:
  "rest_loop fsum hc original (block_starts hc) (block_ends hc) col =
     place fst (\<lambda>(s, e). block_sum fsum hc original s e) (blocks hc) col"
proof -
  let ?F = "\<lambda>b c. if (case b of (s, e) \<Rightarrow> block_sum fsum hc original s e) > 0
                   then c[fst b := (case b of (s, e) \<Rightarrow> block_sum fsum hc original s e)] else c"
  have "rest_loop fsum hc original (block_starts hc) (block_ends hc) col =
          fold (\<lambda>i. ?F (blocks hc ! i)) [0..<length (blocks hc)] col"
    unfolding rest_loop_def length_blocks
    by (rule fold_cong) (auto simp: nth_block_starts nth_block_ends length_blocks Let_def split_beta)
  also have "\<dots> = fold ?F (blocks hc) col" by (rule fold_index)
  finally show ?thesis by (simp add: place_def)
qed

lemma place_length: "length (place sel tot B col) = length col"
  unfolding place_def by (induction B arbitrary: col) auto

lemma place_other: "j \<notin> sel ` set B \<Longrightarrow> place sel tot B col ! j = col ! j"
  unfolding place_def by (induction B arbitrary: col) auto

lemma place_sel:
  "distinct (map sel B) \<Longrightarrow> b \<in> set B \<Longrightarrow> sel b < length col \<Longrightarrow>
     place sel tot B col ! sel b = (if tot b > 0 then tot b else col ! sel b)"
proof (induction B arbitrary: col)
  case Nil
  then show ?case by simp
next
  case (Cons a B)
  let ?c = "if tot a > 0 then col[sel a := tot a] else col"
  have unf: "place sel tot (a # B) col = place sel tot B ?c" by (simp add: place_def)
  show ?case
  proof (cases "b = a")
    case True
    have "sel a \<notin> sel ` set B" using Cons.prems(1) by auto
    then have "place sel tot B ?c ! sel a = ?c ! sel a" by (rule place_other)
    then show ?thesis using True unf Cons.prems(3) by simp
  next
    case False
    then have bB: "b \<in> set B" using Cons.prems(2) by simp
    have "sel a \<notin> sel ` set B" using Cons.prems(1) by simp
    with bB have ne: "sel b \<noteq> sel a" by (metis imageI)
    have "place sel tot B ?c ! sel b = (if tot b > 0 then tot b else ?c ! sel b)"
      by (rule Cons.IH) (use Cons.prems bB in auto)
    then show ?thesis using unf ne by simp
  qed
qed

lemma sum_list_zeros: "(\<And>x. x \<in> set xs \<Longrightarrow> f x = (0::real)) \<Longrightarrow> sum_list (map f xs) = 0"
  by (induction xs) auto

lemma filter_range: "e < n \<Longrightarrow> filter (\<lambda>k. s \<le> k \<and> k \<le> e) [0..<n] = [s..<Suc e]"
proof (rule sorted_distinct_set_unique)
  show "sorted (filter (\<lambda>k. s \<le> k \<and> k \<le> e) [0..<n])"
    by (rule sorted_wrt_filter) (rule sorted_upt)
  show "sorted [s..<Suc e]" by (rule sorted_upt)
  show "distinct (filter (\<lambda>k. s \<le> k \<and> k \<le> e) [0..<n])" by simp
  show "distinct [s..<Suc e]" by (rule distinct_upt)
  show "e < n \<Longrightarrow> set (filter (\<lambda>k. s \<le> k \<and> k \<le> e) [0..<n]) = set [s..<Suc e]" by auto
qed

lemma block_sum_maxrun:
  assumes m: "maxrun hc s e" and len: "length original = length hc"
  shows "block_sum fsum hc original s e = fsum (block_values original s e)"
proof -
  have "filter (\<lambda>k. s \<le> k \<and> k \<le> e \<and> hc ! k) [0..<length original] =
        filter (\<lambda>k. s \<le> k \<and> k \<le> e) [0..<length original]"
    by (rule filter_cong) (use maxrun_all [OF m] in auto)
  also have "\<dots> = [s..<Suc e]"
    by (rule filter_range) (use maxrun_less [OF m] len in simp)
  finally show ?thesis by (simp add: block_sum_def block_values_def)
qed

lemma demand_column_length: "length (demand_column fsum hc original) = length original"
  by (simp add: demand_column_def demand_loop_place place_length)

lemma rest_column_length: "length (rest_column fsum hc original) = length original"
  by (simp add: rest_column_def rest_loop_place place_length)

lemma demand_column_end:
  assumes m: "maxrun hc s e" and len: "length original = length hc"
  shows "demand_column fsum hc original ! e = max 0 (fsum (block_values original s e))"
proof -
  have b: "(s, e) \<in> set (blocks hc)" using m by (simp add: blocks_iff)
  have "demand_column fsum hc original ! snd (s, e) =
          (if (case (s, e) of (s, e) \<Rightarrow> block_sum fsum hc original s e) > 0
           then (case (s, e) of (s, e) \<Rightarrow> block_sum fsum hc original s e)
           else replicate (length original) 0 ! snd (s, e))"
    unfolding demand_column_def demand_loop_place
    by (rule place_sel [OF distinct_blocks_snd b]) (use maxrun_less [OF m] len in simp)
  then show ?thesis
    using block_sum_maxrun [OF m len] maxrun_less [OF m] len by auto
qed

lemma demand_column_not_end:
  assumes j: "j < length original" and no: "\<And>s. \<not> maxrun hc s j"
  shows "demand_column fsum hc original ! j = 0"
proof -
  have "j \<notin> snd ` set (blocks hc)" using no blocks_iff by force
  then have "demand_column fsum hc original ! j = replicate (length original) 0 ! j"
    unfolding demand_column_def demand_loop_place by (rule place_other)
  then show ?thesis using j by simp
qed

lemma rest_column_start:
  assumes m: "maxrun hc s e" and len: "length original = length hc"
  shows "rest_column fsum hc original ! s = max 0 (fsum (block_values original s e))"
proof -
  have b: "(s, e) \<in> set (blocks hc)" using m by (simp add: blocks_iff)
  have "rest_column fsum hc original ! fst (s, e) =
          (if (case (s, e) of (s, e) \<Rightarrow> block_sum fsum hc original s e) > 0
           then (case (s, e) of (s, e) \<Rightarrow> block_sum fsum hc original s e)
           else replicate (length original) 0 ! fst (s, e))"
    unfolding rest_column_def rest_loop_place
    by (rule place_sel [OF distinct_blocks_fst b]) (use maxrun_less [OF m] maxrun_le [OF m] len in simp)
  then show ?thesis
    using block_sum_maxrun [OF m len] maxrun_less [OF m] maxrun_le [OF m] len by auto
qed

lemma rest_column_not_start:
  assumes j: "j < length original" and no: "\<And>e. \<not> maxrun hc j e"
  shows "rest_column fsum hc original ! j = 0"
proof -
  have "j \<notin> fst ` set (blocks hc)" using no blocks_iff by force
  then have "rest_column fsum hc original ! j = replicate (length original) 0 ! j"
    unfolding rest_column_def rest_loop_place by (rule place_other)
  then show ?thesis using j by simp
qed

text \<open>Inside a maximal run only the last row is a run end and only the first a run start.\<close>

lemma inner_not_end:
  assumes m: "maxrun hc s e" and j: "s \<le> j" "j < e"
  shows "\<not> maxrun hc s' j"
proof
  assume m': "maxrun hc s' j"
  from maxrun_unique [OF m m', of j] j maxrun_le [OF m'] show False by simp
qed

lemma inner_not_start:
  assumes m: "maxrun hc s e" and j: "s < j" "j \<le> e"
  shows "\<not> maxrun hc j e'"
proof
  assume m': "maxrun hc j e'"
  from maxrun_unique [OF m m', of j] j maxrun_le [OF m'] show False by simp
qed

lemma demand_column_inner:
  assumes m: "maxrun hc s e" and len: "length original = length hc" and j: "s \<le> j" "j < e"
  shows "demand_column fsum hc original ! j = 0"
  by (rule demand_column_not_end) (use inner_not_end [OF m j] maxrun_less [OF m] len j in auto)

lemma rest_column_inner:
  assumes m: "maxrun hc s e" and len: "length original = length hc" and j: "s < j" "j \<le> e"
  shows "rest_column fsum hc original ! j = 0"
  by (rule rest_column_not_start) (use inner_not_start [OF m j] maxrun_less [OF m] len j in auto)

lemma map_zeros:
  "(\<And>x. x \<in> set xs \<Longrightarrow> f x = (0::real)) \<Longrightarrow> map f xs = replicate (length xs) 0"
  by (induction xs) auto

lemma block_values_last:
  assumes "s \<le> e" "\<And>j. s \<le> j \<Longrightarrow> j < e \<Longrightarrow> xs ! j = 0"
  shows "block_values xs s e = replicate (e - s) 0 @ xs ! e # replicate 0 0"
proof -
  have "map (\<lambda>k. xs ! k) [s..<e] = replicate (length [s..<e]) 0"
    by (rule map_zeros) (use assms(2) in auto)
  then have "map (\<lambda>k. xs ! k) [s..<e] = replicate (e - s) 0" by simp
  then show ?thesis using assms(1) by (simp add: block_values_def)
qed

lemma block_values_first:
  assumes "s \<le> e" "\<And>j. s < j \<Longrightarrow> j \<le> e \<Longrightarrow> xs ! j = 0"
  shows "block_values xs s e = replicate 0 0 @ xs ! s # replicate (e - s) 0"
proof -
  have "map (\<lambda>k. xs ! k) [Suc s..<Suc e] = replicate (length [Suc s..<Suc e]) 0"
    by (rule map_zeros) (use assms(2) in auto)
  then have "map (\<lambda>k. xs ! k) [Suc s..<Suc e] = replicate (e - s) 0"
    by (simp only: length_upt diff_Suc_Suc)
  moreover have eq: "[s..<Suc e] = s # [Suc s..<Suc e]"
    by (subst upt_rec) (use assms(1) in simp)
  ultimately show ?thesis unfolding block_values_def eq by simp
qed

lemma demand_column_idem:
  assumes ex: "exact_on_padded fsum" and len: "length original = length hc"
  shows "demand_column fsum hc (demand_column fsum hc original) = demand_column fsum hc original"
proof (rule nth_equalityI)
  show "length (demand_column fsum hc (demand_column fsum hc original)) =
      length (demand_column fsum hc original)"
    by (simp add: demand_column_length)
next
  fix j assume "j < length (demand_column fsum hc (demand_column fsum hc original))"
  then have j: "j < length original" by (simp add: demand_column_length)
  let ?c = "demand_column fsum hc original"
  have len': "length ?c = length hc" using len by (simp add: demand_column_length)
  show "demand_column fsum hc ?c ! j = ?c ! j"
  proof (cases "\<exists>s. maxrun hc s j")
    case True
    then obtain s where m: "maxrun hc s j" ..
    have "block_values ?c s j = replicate (j - s) 0 @ ?c ! j # replicate 0 0"
      by (rule block_values_last) (use maxrun_le [OF m] demand_column_inner [OF m len] in auto)
    then have "fsum (block_values ?c s j) = ?c ! j"
      using ex unfolding exact_on_padded_def by metis
    then have "demand_column fsum hc ?c ! j = max 0 (?c ! j)"
      using demand_column_end [OF m len'] by simp
    also have "\<dots> = ?c ! j" using demand_column_end [OF m len] by simp
    finally show ?thesis .
  next
    case False
    then have no: "\<And>s. \<not> maxrun hc s j" by simp
    have "demand_column fsum hc ?c ! j = 0"
      by (rule demand_column_not_end) (use j no in \<open>auto simp: demand_column_length\<close>)
    moreover have "?c ! j = 0" by (rule demand_column_not_end) (use j no in auto)
    ultimately show ?thesis by simp
  qed
qed

lemma rest_column_idem:
  assumes ex: "exact_on_padded fsum" and len: "length original = length hc"
  shows "rest_column fsum hc (rest_column fsum hc original) = rest_column fsum hc original"
proof (rule nth_equalityI)
  show "length (rest_column fsum hc (rest_column fsum hc original)) =
      length (rest_column fsum hc original)"
    by (simp add: rest_column_length)
next
  fix j assume "j < length (rest_column fsum hc (rest_column fsum hc original))"
  then have j: "j < length original" by (simp add: rest_column_length)
  let ?c = "rest_column fsum hc original"
  have len': "length ?c = length hc" using len by (simp add: rest_column_length)
  show "rest_column fsum hc ?c ! j = ?c ! j"
  proof (cases "\<exists>e. maxrun hc j e")
    case True
    then obtain e where m: "maxrun hc j e" ..
    have "block_values ?c j e = replicate 0 0 @ ?c ! j # replicate (e - j) 0"
      by (rule block_values_first) (use maxrun_le [OF m] rest_column_inner [OF m len] in auto)
    then have "fsum (block_values ?c j e) = ?c ! j"
      using ex unfolding exact_on_padded_def by metis
    then have "rest_column fsum hc ?c ! j = max 0 (?c ! j)"
      using rest_column_start [OF m len'] by simp
    also have "\<dots> = ?c ! j" using rest_column_start [OF m len] by simp
    finally show ?thesis .
  next
    case False
    then have no: "\<And>e. \<not> maxrun hc j e" by simp
    have "rest_column fsum hc ?c ! j = 0"
      by (rule rest_column_not_start) (use j no in \<open>auto simp: rest_column_length\<close>)
    moreover have "?c ! j = 0" by (rule rest_column_not_start) (use j no in auto)
    ultimately show ?thesis by simp
  qed
qed

lemma exact_on_padded_sum_list: "exact_on_padded sum_list"
  by (simp add: exact_on_padded_def sum_list_replicate)

lemma nonneg_sum_sum_list: "nonneg_sum sum_list"
  by (simp add: nonneg_sum_def sum_list_nonneg)

lemma sum_list_update_real:
  "i < length xs \<Longrightarrow> sum_list (xs[i := v]) = sum_list xs + v - (xs ! i :: real)"
proof (induction xs arbitrary: i)
  case Nil
  then show ?case by simp
next
  case (Cons x xs)
  then show ?case by (cases i) auto
qed

lemma place_sum:
  "distinct (map sel B) \<Longrightarrow> \<forall>b \<in> set B. sel b < length col \<and> col ! sel b = 0 \<Longrightarrow>
     sum_list (place sel tot B col) = sum_list col + (\<Sum>b\<leftarrow>B. max 0 (tot b))"
proof (induction B arbitrary: col)
  case Nil
  then show ?case by (simp add: place_def)
next
  case (Cons a B)
  let ?c = "if tot a > 0 then col[sel a := tot a] else col"
  have unf: "place sel tot (a # B) col = place sel tot B ?c" by (simp add: place_def)
  have a: "sel a < length col" "col ! sel a = 0" using Cons.prems(2) by auto
  have nin: "sel a \<notin> sel ` set B" using Cons.prems(1) by simp
  have c: "\<forall>b \<in> set B. sel b < length ?c \<and> ?c ! sel b = 0"
  proof
    fix b assume b: "b \<in> set B"
    then have "sel b \<noteq> sel a" using nin by (metis imageI)
    then show "sel b < length ?c \<and> ?c ! sel b = 0" using Cons.prems(2) b by auto
  qed
  have "sum_list (place sel tot B ?c) = sum_list ?c + (\<Sum>b\<leftarrow>B. max 0 (tot b))"
    by (rule Cons.IH) (use Cons.prems(1) c in auto)
  moreover have "sum_list ?c = sum_list col + max 0 (tot a)"
    using a by (simp add: sum_list_update_real)
  ultimately show ?case using unf by simp
qed

lemma block_values_nonneg:
  assumes "\<forall>x \<in> set xs. 0 \<le> x" "e < length xs"
  shows "\<forall>x \<in> set (block_values xs s e). 0 \<le> x"
  using assms by (auto simp: block_values_def)

lemma placed_sum_blocks:
  assumes nn: "nonneg_sum fsum" and len: "length original = length hc"
    and pos: "\<forall>x \<in> set original. 0 \<le> x"
    and d: "distinct (map sel (blocks hc))" and sel: "\<forall>b \<in> set (blocks hc). sel b \<le> snd b"
  shows "sum_list (place sel (\<lambda>(s, e). block_sum fsum hc original s e) (blocks hc)
            (replicate (length original) 0)) =
         (\<Sum>b\<leftarrow>blocks hc. fsum (block_values original (fst b) (snd b)))"
proof -
  let ?tot = "\<lambda>(s, e). block_sum fsum hc original s e"
  have z: "\<forall>b \<in> set (blocks hc). sel b < length (replicate (length original) (0::real)) \<and>
               replicate (length original) (0::real) ! sel b = 0"
  proof
    fix b assume b: "b \<in> set (blocks hc)"
    then have "maxrun hc (fst b) (snd b)" using blocks_iff by (metis prod.collapse)
    then have "snd b < length original" using maxrun_less len by simp
    with sel b have "sel b < length original" by fastforce
    then show "sel b < length (replicate (length original) (0::real)) \<and>
               replicate (length original) (0::real) ! sel b = 0" by simp
  qed
  have "sum_list (place sel ?tot (blocks hc) (replicate (length original) 0)) =
          sum_list (replicate (length original) (0::real)) + (\<Sum>b\<leftarrow>blocks hc. max 0 (?tot b))"
    by (rule place_sum [OF d z])
  also have "\<dots> = (\<Sum>b\<leftarrow>blocks hc. max 0 (?tot b))" by (simp add: sum_list_replicate)
  also have "\<dots> = (\<Sum>b\<leftarrow>blocks hc. fsum (block_values original (fst b) (snd b)))"
  proof (rule arg_cong [where f = sum_list], rule map_cong [OF refl])
    fix b assume b: "b \<in> set (blocks hc)"
    then have m: "maxrun hc (fst b) (snd b)" using blocks_iff by (metis prod.collapse)
    have "?tot b = fsum (block_values original (fst b) (snd b))"
      using block_sum_maxrun [OF m len] by (simp add: split_beta)
    moreover have "0 \<le> fsum (block_values original (fst b) (snd b))"
      using nn block_values_nonneg [OF pos, of "snd b" "fst b"] maxrun_less [OF m] len
      unfolding nonneg_sum_def by simp
    ultimately show "max 0 (?tot b) = fsum (block_values original (fst b) (snd b))" by simp
  qed
  finally show ?thesis .
qed

lemma demand_column_sum:
  assumes nn: "nonneg_sum fsum" and len: "length original = length hc"
    and pos: "\<forall>x \<in> set original. 0 \<le> x"
  shows "sum_list (demand_column fsum hc original) =
         (\<Sum>b\<leftarrow>blocks hc. fsum (block_values original (fst b) (snd b)))"
  unfolding demand_column_def demand_loop_place
  by (rule placed_sum_blocks [OF nn len pos distinct_blocks_snd]) simp

lemma rest_column_sum:
  assumes nn: "nonneg_sum fsum" and len: "length original = length hc"
    and pos: "\<forall>x \<in> set original. 0 \<le> x"
  shows "sum_list (rest_column fsum hc original) =
         (\<Sum>b\<leftarrow>blocks hc. fsum (block_values original (fst b) (snd b)))"
  unfolding rest_column_def rest_loop_place
proof (rule placed_sum_blocks [OF nn len pos distinct_blocks_fst])
  show "\<forall>b \<in> set (blocks hc). fst b \<le> snd b"
    using blocks_iff maxrun_le by (metis prod.collapse)
qed

lemma has_capacity_column: "has_capacity df = map (\<lambda>c. c > 0) (capacity_column df)"
  by (simp add: has_capacity_def capacity_column_def split_beta)

lemma length_columns:
  "length (has_capacity df) = length df" "length (demand_of df) = length df"
  "length (rest_of df) = length df" "length (capacity_column df) = length df"
  by (simp_all add: has_capacity_def demand_of_def rest_of_def capacity_column_def)

lemma set_demand_alt:
  "set_energy_demand_at_block_end fsum df =
     write_demand df (demand_column fsum (has_capacity df) (demand_of df))"
  by (simp add: set_energy_demand_at_block_end_def demand_column_def length_columns Let_def)

lemma set_rest_alt:
  "set_rest_energy_at_block_start fsum df =
     write_rest df (rest_column fsum (has_capacity df) (rest_of df))"
  by (simp add: set_rest_energy_at_block_start_def rest_column_def length_columns Let_def)

lemma write_demand_columns:
  assumes "length df = length col"
  shows "map fst (write_demand df col) = map fst df"
    and "capacity_column (write_demand df col) = capacity_column df"
    and "demand_of (write_demand df col) = col"
    and "rest_of (write_demand df col) = rest_of df"
  using assms
  by (induction df col rule: list_induct2)
     (auto simp: write_demand_def capacity_column_def demand_of_def rest_of_def)

lemma write_rest_columns:
  assumes "length df = length col"
  shows "map fst (write_rest df col) = map fst df"
    and "capacity_column (write_rest df col) = capacity_column df"
    and "demand_of (write_rest df col) = demand_of df"
    and "rest_of (write_rest df col) = col"
  using assms
  by (induction df col rule: list_induct2)
     (auto simp: write_rest_def capacity_column_def demand_of_def rest_of_def)

lemma set_demand_columns:
  "map fst (set_energy_demand_at_block_end fsum df) = map fst df"
  "capacity_column (set_energy_demand_at_block_end fsum df) = capacity_column df"
  "demand_of (set_energy_demand_at_block_end fsum df) = demand_column fsum (has_capacity df) (demand_of df)"
  "rest_of (set_energy_demand_at_block_end fsum df) = rest_of df"
  unfolding set_demand_alt
  by (rule write_demand_columns, simp add: demand_column_length length_columns)+

lemma set_rest_columns:
  "map fst (set_rest_energy_at_block_start fsum df) = map fst df"
  "capacity_column (set_rest_energy_at_block_start fsum df) = capacity_column df"
  "demand_of (set_rest_energy_at_block_start fsum df) = demand_of df"
  "rest_of (set_rest_energy_at_block_start fsum df) = rest_column fsum (has_capacity df) (rest_of df)"
  unfolding set_rest_alt
  by (rule write_rest_columns, simp add: rest_column_length length_columns)+

lemma consolidate_by_columns:
  "map fst (consolidate_by fsum df) = map fst df"
  "capacity_column (consolidate_by fsum df) = capacity_column df"
  "has_capacity (consolidate_by fsum df) = has_capacity df"
  "demand_of (consolidate_by fsum df) = demand_column fsum (has_capacity df) (demand_of df)"
  "rest_of (consolidate_by fsum df) = rest_column fsum (has_capacity df) (rest_of df)"
  by (simp_all add: consolidate_by_def set_rest_columns set_demand_columns has_capacity_column)

lemma length_consolidate_by: "length (consolidate_by fsum df) = length df"
  using consolidate_by_columns(1) [of fsum df] by (metis length_map)

lemma table_eqI:
  assumes "map fst a = map fst b" "capacity_column a = capacity_column b"
    "demand_of a = demand_of b" "rest_of a = rest_of b"
  shows "a = (b :: table)"
proof (rule nth_equalityI)
  show len: "length a = length b" using assms(1) by (rule map_eq_imp_length_eq)
  fix i assume i: "i < length a"
  then have i': "i < length b" using len by simp
  have "fst (a ! i) = fst (b ! i)"
    using arg_cong [OF assms(1), of "\<lambda>xs. xs ! i"] i i' by simp
  moreover have "available_capacity_kWh (snd (a ! i)) = available_capacity_kWh (snd (b ! i))"
    using arg_cong [OF assms(2), of "\<lambda>xs. xs ! i"] i i'
    by (simp add: capacity_column_def split_beta)
  moreover have "energy_demand_kWh (snd (a ! i)) = energy_demand_kWh (snd (b ! i))"
    using arg_cong [OF assms(3), of "\<lambda>xs. xs ! i"] i i'
    by (simp add: demand_of_def split_beta)
  moreover have "rest_energy_kWh (snd (a ! i)) = rest_energy_kWh (snd (b ! i))"
    using arg_cong [OF assms(4), of "\<lambda>xs. xs ! i"] i i'
    by (simp add: rest_of_def split_beta)
  ultimately show "a ! i = b ! i"
    by (simp add: prod_eq_iff)
qed

lemma nth_demand_of: "j < length df \<Longrightarrow> demand_of df ! j = energy_demand_kWh (snd (df ! j))"
  and nth_rest_of: "j < length df \<Longrightarrow> rest_of df ! j = rest_energy_kWh (snd (df ! j))"
  and nth_capacity_column:
    "j < length df \<Longrightarrow> capacity_column df ! j = available_capacity_kWh (snd (df ! j))"
  by (simp_all add: demand_of_def rest_of_def capacity_column_def split_beta)

section \<open>Claims about the block consolidator\<close>

lemmas consolidate_eval =
  consolidate_def consolidate_by_def set_rest_energy_at_block_start_def
  set_energy_demand_at_block_end_def has_capacity_def block_starts_def block_ends_def
  demand_loop_def rest_loop_def block_sum_def astype_int_def index_union_def shift_back_def
  demand_of_def rest_of_def write_demand_def write_rest_def

lemma no_capacity_no_run: "\<not> hc ! j \<Longrightarrow> \<not> maxrun hc s j" "\<not> hc ! j \<Longrightarrow> \<not> maxrun hc j e"
  using maxrun_all maxrun_le by (metis order_refl)+

lemma nth_has_capacity:
  "j < length df \<Longrightarrow> has_capacity df ! j \<longleftrightarrow> available_capacity_kWh (snd (df ! j)) > 0"
  by (simp add: has_capacity_def split_beta)

lemma consolidate_by_zero_capacity:
  assumes j: "j < length df" and z: "\<not> available_capacity_kWh (snd (df ! j)) > 0"
  shows "energy_demand_kWh (snd (consolidate_by fsum df ! j)) = 0 \<and>
         rest_energy_kWh (snd (consolidate_by fsum df ! j)) = 0"
proof -
  have nh: "\<not> has_capacity df ! j" using j z by (simp add: nth_has_capacity)
  have "demand_column fsum (has_capacity df) (demand_of df) ! j = 0"
    by (rule demand_column_not_end) (use j no_capacity_no_run [OF nh] in \<open>auto simp: length_columns\<close>)
  moreover have "rest_column fsum (has_capacity df) (rest_of df) ! j = 0"
    by (rule rest_column_not_start) (use j no_capacity_no_run [OF nh] in \<open>auto simp: length_columns\<close>)
  moreover have "energy_demand_kWh (snd (consolidate_by fsum df ! j)) =
      demand_of (consolidate_by fsum df) ! j"
    "rest_energy_kWh (snd (consolidate_by fsum df ! j)) = rest_of (consolidate_by fsum df) ! j"
    using j by (simp_all add: nth_demand_of nth_rest_of length_consolidate_by)
  ultimately show ?thesis by (simp add: consolidate_by_columns)
qed

lemma consolidate_by_idempotent:
  assumes "exact_on_padded fsum"
  shows "consolidate_by fsum (consolidate_by fsum df) = consolidate_by fsum df"
proof (rule table_eqI)
  show "map fst (consolidate_by fsum (consolidate_by fsum df)) = map fst (consolidate_by fsum df)"
    by (simp add: consolidate_by_columns)
  show "capacity_column (consolidate_by fsum (consolidate_by fsum df)) =
      capacity_column (consolidate_by fsum df)"
    by (simp add: consolidate_by_columns)
  show "demand_of (consolidate_by fsum (consolidate_by fsum df)) = demand_of (consolidate_by fsum df)"
    by (simp add: consolidate_by_columns demand_column_idem [OF assms] length_columns)
  show "rest_of (consolidate_by fsum (consolidate_by fsum df)) = rest_of (consolidate_by fsum df)"
    by (simp add: consolidate_by_columns rest_column_idem [OF assms] length_columns)
qed

lemma consolidate_columns:
  "map fst (consolidate df) = map fst df"
  "capacity_column (consolidate df) = capacity_column df"
  "has_capacity (consolidate df) = has_capacity df"
  by (simp_all add: consolidate_def consolidate_by_columns)

lemma length_consolidate: "length (consolidate df) = length df"
  by (simp add: consolidate_def length_consolidate_by)

text \<open>
  Claim C1, as the specification states it: the sum of \<^verbatim>\<open>energy_demand_kWh\<close> (and of
  \<^verbatim>\<open>rest_energy_kWh\<close>) over the table after consolidation equals the sum of the raw
  samples, a raw sample on a row outside every block being folded into the nearest block.
  The code sums a block over its own rows only (the mask of line 372 ends with
  \<^verbatim>\<open>& has_capacity\<close>): a raw sample on a row without capacity is dropped. Here the
  sample 3 sits on a row with capacity 0, next to a block; after consolidation the demand
  column sums to 0.
\<close>

theorem conservation_counterexample:
  "sum_list (demand_of
      [(0, \<lparr>available_capacity_kWh = 0, energy_demand_kWh = 3, rest_energy_kWh = 0\<rparr>),
       (60, \<lparr>available_capacity_kWh = 5, energy_demand_kWh = 0, rest_energy_kWh = 0\<rparr>)]) = 3 \<and>
   sum_list (demand_of (consolidate
      [(0, \<lparr>available_capacity_kWh = 0, energy_demand_kWh = 3, rest_energy_kWh = 0\<rparr>),
       (60, \<lparr>available_capacity_kWh = 5, energy_demand_kWh = 0, rest_energy_kWh = 0\<rparr>)])) = 0"
  by (simp add: consolidate_eval)

text \<open>
  Claim C1, amended: for a table whose raw demand and rest-energy values are not negative
  (every sample of the schedule simulator is a product of factors that are not negative, or
  a maximum with 0), the values of a metric after consolidation add up to the block totals
  of that metric, one total for each maximal run of rows with positive capacity, a total
  being the column sum, with the rounding of its additions, of the raw values on the rows
  of the run. Every row outside the runs holds 0 afterwards, and a raw sample recorded on
  such a row enters no total: it is dropped, not moved into a block. \<open>blocks\<close> lists the
  maximal runs, each once.
\<close>

theorem consolidated_sum_is_block_totals:
  assumes "nonneg_sum fsum"
    and "\<forall>x \<in> set (demand_of df). 0 \<le> x" and "\<forall>x \<in> set (rest_of df). 0 \<le> x"
  shows "sum_list (demand_of (consolidate_by fsum df)) =
           (\<Sum>(s, e)\<leftarrow>blocks (has_capacity df). fsum (block_values (demand_of df) s e)) \<and>
         sum_list (rest_of (consolidate_by fsum df)) =
           (\<Sum>(s, e)\<leftarrow>blocks (has_capacity df). fsum (block_values (rest_of df) s e)) \<and>
         (\<forall>s e. (s, e) \<in> set (blocks (has_capacity df)) \<longleftrightarrow> maxrun (has_capacity df) s e) \<and>
         distinct (blocks (has_capacity df)) \<and>
         (\<forall>j < length df. \<not> available_capacity_kWh (snd (df ! j)) > 0 \<longrightarrow>
            energy_demand_kWh (snd (consolidate_by fsum df ! j)) = 0 \<and>
            rest_energy_kWh (snd (consolidate_by fsum df ! j)) = 0)"
proof (intro conjI allI impI)
  have "sum_list (demand_of (consolidate_by fsum df)) =
      (\<Sum>b\<leftarrow>blocks (has_capacity df). fsum (block_values (demand_of df) (fst b) (snd b)))"
    unfolding consolidate_by_columns
    by (rule demand_column_sum [OF assms(1) _ assms(2)]) (simp add: length_columns)
  then show "sum_list (demand_of (consolidate_by fsum df)) =
      (\<Sum>(s, e)\<leftarrow>blocks (has_capacity df). fsum (block_values (demand_of df) s e))"
    by (simp add: case_prod_unfold)
  have "sum_list (rest_of (consolidate_by fsum df)) =
      (\<Sum>b\<leftarrow>blocks (has_capacity df). fsum (block_values (rest_of df) (fst b) (snd b)))"
    unfolding consolidate_by_columns
    by (rule rest_column_sum [OF assms(1) _ assms(3)]) (simp add: length_columns)
  then show "sum_list (rest_of (consolidate_by fsum df)) =
      (\<Sum>(s, e)\<leftarrow>blocks (has_capacity df). fsum (block_values (rest_of df) s e))"
    by (simp add: case_prod_unfold)
  show "distinct (blocks (has_capacity df))"
    using distinct_blocks_snd distinct_map by blast
next
  fix s e
  show "(s, e) \<in> set (blocks (has_capacity df)) \<longleftrightarrow> maxrun (has_capacity df) s e"
    by (rule blocks_iff)
next
  fix j assume "j < length df" "\<not> available_capacity_kWh (snd (df ! j)) > 0"
  then show "energy_demand_kWh (snd (consolidate_by fsum df ! j)) = 0"
    "rest_energy_kWh (snd (consolidate_by fsum df ! j)) = 0"
    using consolidate_by_zero_capacity by blast+
qed

theorem consolidated_sum_is_block_totals_witness:
  "sum_list (demand_of (consolidate_by sum_list
      [(0, \<lparr>available_capacity_kWh = 0, energy_demand_kWh = 3, rest_energy_kWh = 1\<rparr>),
       (60, \<lparr>available_capacity_kWh = 5, energy_demand_kWh = 1, rest_energy_kWh = 2\<rparr>),
       (120, \<lparr>available_capacity_kWh = 5, energy_demand_kWh = 2, rest_energy_kWh = 3\<rparr>)])) = 3 \<and>
   sum_list (rest_of (consolidate_by sum_list
      [(0, \<lparr>available_capacity_kWh = 0, energy_demand_kWh = 3, rest_energy_kWh = 1\<rparr>),
       (60, \<lparr>available_capacity_kWh = 5, energy_demand_kWh = 1, rest_energy_kWh = 2\<rparr>),
       (120, \<lparr>available_capacity_kWh = 5, energy_demand_kWh = 2, rest_energy_kWh = 3\<rparr>)])) = 5"
proof -
  let ?T = "[(0, \<lparr>available_capacity_kWh = 0, energy_demand_kWh = 3, rest_energy_kWh = 1\<rparr>),
       (60, \<lparr>available_capacity_kWh = 5, energy_demand_kWh = 1, rest_energy_kWh = 2\<rparr>),
       (120, \<lparr>available_capacity_kWh = 5, energy_demand_kWh = 2, rest_energy_kWh = 3\<rparr>)] :: table"
  have d: "\<forall>x \<in> set (demand_of ?T). 0 \<le> x" and r: "\<forall>x \<in> set (rest_of ?T). 0 \<le> x"
    by (simp_all add: demand_of_def rest_of_def)
  have b: "blocks (has_capacity ?T) = [(1, 2)]"
    by (simp add: blocks_def has_capacity_def)
  have "sum_list (block_values (demand_of ?T) 1 2) = 3"
    "sum_list (block_values (rest_of ?T) 1 2) = 5"
    by (simp_all add: block_values_def demand_of_def rest_of_def upt_rec numeral_2_eq_2)
  with consolidated_sum_is_block_totals [OF nonneg_sum_sum_list d r] b show ?thesis by simp
qed

text \<open>
  Claim C4: for every table with raw values that are not negative and every maximal run
  \<open>s..e\<close> of rows with positive capacity, after consolidation the last row of the run holds
  the sum of the raw demand values \<open>d_1..d_k\<close> of the run and every other row of the run
  holds demand 0; the first row of the run holds the sum of its raw rest-energy values and
  every other row of the run holds rest-energy 0. The sum is the column sum of the code.
\<close>

theorem block_placement:
  assumes nn: "nonneg_sum fsum" and m: "maxrun (has_capacity df) s e"
    and pd: "\<forall>x \<in> set (block_values (demand_of df) s e). 0 \<le> x"
    and pr: "\<forall>x \<in> set (block_values (rest_of df) s e). 0 \<le> x"
  shows "energy_demand_kWh (snd (consolidate_by fsum df ! e)) =
           fsum (block_values (demand_of df) s e) \<and>
         (\<forall>j. s \<le> j \<and> j < e \<longrightarrow> energy_demand_kWh (snd (consolidate_by fsum df ! j)) = 0) \<and>
         rest_energy_kWh (snd (consolidate_by fsum df ! s)) =
           fsum (block_values (rest_of df) s e) \<and>
         (\<forall>j. s < j \<and> j \<le> e \<longrightarrow> rest_energy_kWh (snd (consolidate_by fsum df ! j)) = 0)"
proof (intro conjI allI impI)
  have e: "e < length df" using maxrun_less [OF m] by (simp add: length_columns)
  have s: "s \<le> e" by (rule maxrun_le [OF m])
  have lenD: "length (demand_of df) = length (has_capacity df)"
    and lenR: "length (rest_of df) = length (has_capacity df)" by (simp_all add: length_columns)
  have nd: "0 \<le> fsum (block_values (demand_of df) s e)"
    and nr: "0 \<le> fsum (block_values (rest_of df) s e)"
    using nn pd pr unfolding nonneg_sum_def by simp_all
  have "energy_demand_kWh (snd (consolidate_by fsum df ! e)) = demand_of (consolidate_by fsum df) ! e"
    using e by (simp add: nth_demand_of length_consolidate_by)
  then show "energy_demand_kWh (snd (consolidate_by fsum df ! e)) =
      fsum (block_values (demand_of df) s e)"
    using demand_column_end [OF m lenD, of fsum] nd by (simp add: consolidate_by_columns)
  have "rest_energy_kWh (snd (consolidate_by fsum df ! s)) = rest_of (consolidate_by fsum df) ! s"
    using e s by (simp add: nth_rest_of length_consolidate_by)
  then show "rest_energy_kWh (snd (consolidate_by fsum df ! s)) =
      fsum (block_values (rest_of df) s e)"
    using rest_column_start [OF m lenR, of fsum] nr by (simp add: consolidate_by_columns)
  {
    fix j assume j: "s \<le> j \<and> j < e"
    then have "energy_demand_kWh (snd (consolidate_by fsum df ! j)) =
        demand_of (consolidate_by fsum df) ! j"
      using e by (simp add: nth_demand_of length_consolidate_by)
    then show "energy_demand_kWh (snd (consolidate_by fsum df ! j)) = 0"
      using demand_column_inner [OF m lenD, of j fsum] j by (simp add: consolidate_by_columns)
  }
  {
    fix j assume j: "s < j \<and> j \<le> e"
    then have "rest_energy_kWh (snd (consolidate_by fsum df ! j)) =
        rest_of (consolidate_by fsum df) ! j"
      using e by (simp add: nth_rest_of length_consolidate_by)
    then show "rest_energy_kWh (snd (consolidate_by fsum df ! j)) = 0"
      using rest_column_inner [OF m lenR, of j fsum] j by (simp add: consolidate_by_columns)
  }
qed

theorem block_placement_witness:
  "energy_demand_kWh (snd (consolidate_by sum_list
      [(0, \<lparr>available_capacity_kWh = 0, energy_demand_kWh = 3, rest_energy_kWh = 1\<rparr>),
       (60, \<lparr>available_capacity_kWh = 5, energy_demand_kWh = 1, rest_energy_kWh = 2\<rparr>),
       (120, \<lparr>available_capacity_kWh = 5, energy_demand_kWh = 2, rest_energy_kWh = 3\<rparr>)] ! 2)) = 3 \<and>
   energy_demand_kWh (snd (consolidate_by sum_list
      [(0, \<lparr>available_capacity_kWh = 0, energy_demand_kWh = 3, rest_energy_kWh = 1\<rparr>),
       (60, \<lparr>available_capacity_kWh = 5, energy_demand_kWh = 1, rest_energy_kWh = 2\<rparr>),
       (120, \<lparr>available_capacity_kWh = 5, energy_demand_kWh = 2, rest_energy_kWh = 3\<rparr>)] ! 1)) = 0 \<and>
   rest_energy_kWh (snd (consolidate_by sum_list
      [(0, \<lparr>available_capacity_kWh = 0, energy_demand_kWh = 3, rest_energy_kWh = 1\<rparr>),
       (60, \<lparr>available_capacity_kWh = 5, energy_demand_kWh = 1, rest_energy_kWh = 2\<rparr>),
       (120, \<lparr>available_capacity_kWh = 5, energy_demand_kWh = 2, rest_energy_kWh = 3\<rparr>)] ! 1)) = 5"
proof -
  let ?T = "[(0, \<lparr>available_capacity_kWh = 0, energy_demand_kWh = 3, rest_energy_kWh = 1\<rparr>),
       (60, \<lparr>available_capacity_kWh = 5, energy_demand_kWh = 1, rest_energy_kWh = 2\<rparr>),
       (120, \<lparr>available_capacity_kWh = 5, energy_demand_kWh = 2, rest_energy_kWh = 3\<rparr>)] :: table"
  have hc: "has_capacity ?T = [False, True, True]" by (simp add: has_capacity_def)
  have m: "maxrun (has_capacity ?T) 1 2"
    unfolding hc maxrun_def by (auto simp: nth_Cons' le_Suc_eq numeral_2_eq_2)
  have bd: "block_values (demand_of ?T) 1 2 = [1, 2]" and br: "block_values (rest_of ?T) 1 2 = [2, 3]"
    by (simp_all add: block_values_def demand_of_def rest_of_def upt_rec numeral_2_eq_2)
  have pd: "\<forall>x \<in> set (block_values (demand_of ?T) 1 2). 0 \<le> x"
    and pr: "\<forall>x \<in> set (block_values (rest_of ?T) 1 2). 0 \<le> x"
    unfolding bd br by simp_all
  from block_placement [OF nonneg_sum_sum_list m pd pr] show ?thesis
    unfolding bd br by simp
qed

text \<open>
  Claim C5: for every table, running the block consolidator (the demand pass and the
  rest-energy pass) a second time leaves the table as the first run produced it. The
  second run sums, in each block, zeros and the one total of the first run; the equality
  holds of every column sum that is exact on such a list (lemma
  \<open>consolidate_by_idempotent\<close>), the sum without rounding among them.
\<close>

theorem consolidate_idempotent: "consolidate (consolidate df) = consolidate df"
  unfolding consolidate_def by (rule consolidate_by_idempotent [OF exact_on_padded_sum_list])

section \<open>Rounding and clipping\<close>

lemma py_round_lower: "\<lfloor>x\<rfloor> \<le> py_round x"
  and py_round_upper: "py_round x \<le> \<lfloor>x\<rfloor> + 1"
  by (simp_all add: py_round_def Let_def)

lemma py_round_of_int: "py_round (of_int k) = k"
  by (simp add: py_round_def)

lemma py_round_mono:
  assumes "x \<le> y"
  shows "py_round x \<le> py_round y"
proof (cases "\<lfloor>x\<rfloor> = \<lfloor>y\<rfloor>")
  case True
  have "x - of_int \<lfloor>x\<rfloor> \<le> y - of_int \<lfloor>y\<rfloor>" using assms True by simp
  then show ?thesis
    unfolding py_round_def Let_def True by auto
next
  case False
  have "\<lfloor>x\<rfloor> \<le> \<lfloor>y\<rfloor>" using assms by (rule floor_mono)
  with False have "\<lfloor>x\<rfloor> + 1 \<le> \<lfloor>y\<rfloor>" by simp
  with py_round_upper [of x] py_round_lower [of y] show ?thesis by linarith
qed

lemma np_clip_range: "lo \<le> hi \<Longrightarrow> lo \<le> np_clip a lo hi \<and> np_clip a lo hi \<le> hi"
  by (simp add: np_clip_def)

section \<open>The deviation generator\<close>

lemma generate_time_deviations_seeded:
  assumes "tz_seed config = Some s"
  shows "generate_time_deviations np n config g = generate_time_deviations np n config g'"
  using assms by (simp add: generate_time_deviations_def)

lemma generate_time_deviations_range:
  assumes u: "uniform_in_range np" and m: "0 \<le> max_dev_of config"
    and v: "v \<in> set (fst (generate_time_deviations np n config g))"
  shows "py_round (- max_dev_of config) \<le> v \<and> v \<le> py_round (max_dev_of config)"
proof (cases "tz_typ config = Some Uniform")
  case True
  let ?g0 = "case tz_seed config of Some s \<Rightarrow> np_seed np s | None \<Rightarrow> g"
  let ?d = "fst (np_uniform np (- max_dev_of config) (max_dev_of config) n ?g0)"
  from v True obtain i where "v = py_round (?d i)"
    by (auto simp: generate_time_deviations_def Let_def split_beta)
  moreover have "- max_dev_of config \<le> ?d i \<and> ?d i \<le> max_dev_of config"
    using u m unfolding uniform_in_range_def by simp
  ultimately show ?thesis using py_round_mono by blast
next
  case False
  let ?g0 = "case tz_seed config of Some s \<Rightarrow> np_seed np s | None \<Rightarrow> g"
  let ?sd = "case tz_stddev_minuten config of Some s \<Rightarrow> s | None \<Rightarrow> 10"
  let ?d = "fst (np_normal np 0 ?sd n ?g0)"
  from v False obtain i where
    "v = py_round (np_clip (?d i) (- max_dev_of config) (max_dev_of config))"
    by (auto simp: generate_time_deviations_def Let_def split_beta)
  moreover have "- max_dev_of config \<le> np_clip (?d i) (- max_dev_of config) (max_dev_of config)
      \<and> np_clip (?d i) (- max_dev_of config) (max_dev_of config) \<le> max_dev_of config"
    by (rule np_clip_range) (use m in simp)
  ultimately show ?thesis using py_round_mono by blast
qed

lemma length_generate_time_deviations:
  "length (fst (generate_time_deviations np n config g)) = n"
  by (simp add: generate_time_deviations_def Let_def split_beta)

lemma counter_random_in_range: "uniform_in_range counter_random"
  unfolding uniform_in_range_def
proof (intro allI impI)
  fix low high :: real and n g i :: nat
  assume lh: "low \<le> high"
  let ?q = "real ((g + i) mod 10) / 10"
  have q: "0 \<le> ?q" "?q \<le> 1" by simp_all
  have 1: "0 \<le> (high - low) * ?q" using lh q by simp
  have "(high - low) * ?q \<le> (high - low) * 1"
    by (rule mult_left_mono) (use lh q in simp_all)
  then have 2: "(high - low) * ?q \<le> high - low" by simp
  show "low \<le> fst (np_uniform counter_random low high n g) i \<and>
        fst (np_uniform counter_random low high n g) i \<le> high"
    using 1 2 by (simp add: counter_random_def)
qed

section \<open>Claims about the deviation generator\<close>

text \<open>
  Claim C6: for every seed and every count, two calls of the deviation generator with the
  same configuration (hence the same seed) and the same count return the same sequence of
  minute offsets, whatever state the random generator was in before each call.
\<close>

theorem seeded_generator_deterministic:
  assumes "tz_seed config = Some s"
  shows "fst (generate_time_deviations np n config g) =
         fst (generate_time_deviations np n config g')"
  by (rule arg_cong [OF generate_time_deviations_seeded [OF assms]])

theorem seeded_generator_deterministic_witness:
  "fst (generate_time_deviations counter_random 3
      \<lparr>tz_typ = Some Uniform, tz_stddev_minuten = None,
       tz_max_abweichung_minuten = Some 15, tz_seed = Some 4\<rparr> 0) =
   fst (generate_time_deviations counter_random 3
      \<lparr>tz_typ = Some Uniform, tz_stddev_minuten = None,
       tz_max_abweichung_minuten = Some 15, tz_seed = Some 4\<rparr> 8)"
  by (rule seeded_generator_deterministic [of _ 4]) simp

text \<open>
  Claim C2, as the specification states it: with a seed set, the departure deviations and
  the return deviations of a group-day come from two calls that consume the random state
  one after the other, so the two lists generally differ. Each call seeds the generator
  again before it draws (lines 195-197), so the second call starts from the state the first
  one started from. With the counting generator and seed 4 both lists are \<open>[-3, 0, 3]\<close>;
  without a seed the same generator, started in the same state, gives two different lists.
\<close>

theorem seeded_draws_counterexample:
  "draw_deviations counter_random 3
      \<lparr>tz_typ = Some Uniform, tz_stddev_minuten = None,
       tz_max_abweichung_minuten = Some 15, tz_seed = Some 4\<rparr> 0 = ([- 3, 0, 3], [- 3, 0, 3], 7) \<and>
   draw_deviations counter_random 3
      \<lparr>tz_typ = Some Uniform, tz_stddev_minuten = None,
       tz_max_abweichung_minuten = Some 15, tz_seed = None\<rparr> 4 = ([- 3, 0, 3], [6, 9, 12], 10)"
  by (simp add: draw_deviations_def generate_time_deviations_def counter_random_def
      max_dev_of_def py_round_def upt_rec numeral_3_eq_3)

text \<open>
  Claim C2, amended: when a seed is set in the deviation configuration, each of the two
  calls for a group-day first sets the random state from the seed and then draws, so the
  departure-deviation list and the return-deviation list are the same list: for every
  vehicle index the two deviations are equal.
\<close>

theorem seeded_draws_identical:
  assumes "tz_seed config = Some s"
  shows "fst (draw_deviations np n config g) = fst (snd (draw_deviations np n config g))"
proof -
  obtain l g1 where 1: "generate_time_deviations np n config g = (l, g1)" by (cases "generate_time_deviations np n config g")
  have "generate_time_deviations np n config g1 = (l, g1)"
    using generate_time_deviations_seeded [OF assms, of np n g1 g] 1 by simp
  with 1 show ?thesis by (simp add: draw_deviations_def)
qed

theorem seeded_draws_identical_witness:
  "fst (draw_deviations counter_random 3
      \<lparr>tz_typ = None, tz_stddev_minuten = None,
       tz_max_abweichung_minuten = None, tz_seed = Some 4\<rparr> 0) =
   fst (snd (draw_deviations counter_random 3
      \<lparr>tz_typ = None, tz_stddev_minuten = None,
       tz_max_abweichung_minuten = None, tz_seed = Some 4\<rparr> 0))"
  by (rule seeded_draws_identical [of _ 4]) simp

text \<open>
  Claim C7, as the specification states it: every generated deviation lies within
  \<open>[-max, max]\<close> after rounding, also for a maximum that is not an integer. The draw is
  clipped first and rounded afterwards (lines 207-209): with the maximum 0.7 the normal
  draw 30 is clipped to 0.7 and rounded to 1, which is above 0.7.
\<close>

theorem deviation_range_counterexample:
  "fst (generate_time_deviations counter_random 1
      \<lparr>tz_typ = None, tz_stddev_minuten = None,
       tz_max_abweichung_minuten = Some (7 / 10), tz_seed = None\<rparr> 6) = [1] \<and>
   max_dev_of \<lparr>tz_typ = None, tz_stddev_minuten = None,
       tz_max_abweichung_minuten = Some (7 / 10), tz_seed = None\<rparr> < real_of_int 1"
  by (simp add: generate_time_deviations_def counter_random_def max_dev_of_def py_round_def
      np_clip_def)

text \<open>
  Claim C7, amended: for every deviation configuration with a maximum that is not negative
  and every count, every generated deviation lies between the rounded \<open>-max\<close> and the
  rounded \<open>max\<close> (uniform draws are taken from a generator that stays in the range it is
  given, normal draws are clipped before they are rounded); when the maximum is an integer
  this is the range \<open>[-max, max]\<close>, and when it is not, a value can exceed the maximum by
  less than one minute.
\<close>

theorem deviation_range:
  assumes "uniform_in_range np" and "0 \<le> max_dev_of config"
  shows "(\<forall>v \<in> set (fst (generate_time_deviations np n config g)).
            py_round (- max_dev_of config) \<le> v \<and> v \<le> py_round (max_dev_of config)) \<and>
         (\<forall>k. max_dev_of config = of_int k \<longrightarrow>
            (\<forall>v \<in> set (fst (generate_time_deviations np n config g)). - k \<le> v \<and> v \<le> k))"
proof (intro conjI ballI allI impI)
  fix v assume v: "v \<in> set (fst (generate_time_deviations np n config g))"
  from generate_time_deviations_range [OF assms v]
  show "py_round (- max_dev_of config) \<le> v" "v \<le> py_round (max_dev_of config)" by simp_all
next
  fix k v assume k: "max_dev_of config = of_int k"
    and v: "v \<in> set (fst (generate_time_deviations np n config g))"
  have "py_round (- max_dev_of config) = - k"
    using py_round_of_int [of "- k"] k by simp
  moreover have "py_round (max_dev_of config) = k" using py_round_of_int [of k] k by simp
  ultimately show "- k \<le> v" "v \<le> k"
    using generate_time_deviations_range [OF assms v] by simp_all
qed

theorem deviation_range_witness:
  "list_all (\<lambda>v. - 15 \<le> v \<and> v \<le> 15)
     (fst (generate_time_deviations counter_random 3
        \<lparr>tz_typ = Some Uniform, tz_stddev_minuten = None,
         tz_max_abweichung_minuten = None, tz_seed = None\<rparr> 8))"
proof -
  let ?c = "\<lparr>tz_typ = Some Uniform, tz_stddev_minuten = None,
         tz_max_abweichung_minuten = None, tz_seed = None\<rparr>"
  have m: "max_dev_of ?c = of_int 15" by (simp add: max_dev_of_def)
  have "0 \<le> max_dev_of ?c" by (simp add: max_dev_of_def)
  from deviation_range [OF counter_random_in_range this, of 3 8] m
  show ?thesis unfolding list_all_iff by blast
qed

section \<open>Claims about departure and return timestamps\<close>

lemma bind_err_Inl [simp]: "bind_err (Inl e) f = Inl e"
  and bind_err_Inr [simp]: "bind_err (Inr x) f = f x"
  by (simp_all add: bind_err_def)

lemma bind_err_eq_Inr: "bind_err m f = Inr y \<longleftrightarrow> (\<exists>x. m = Inr x \<and> f x = Inr y)"
  by (cases m) simp_all

lemma apply_time_deviation_eq:
  "apply_time_deviation today base dev =
     (if in_datetime_range today base dev then Inr (nat ((int base + dev) mod 1440))
      else Inl OverflowError)"
proof -
  have "(today * 1440 + int base + dev) mod 1440 = (int base + dev) mod 1440"
    by (simp add: add.assoc)
  then show ?thesis
    by (simp add: apply_time_deviation_def timedelta_minutes_def datetime_add_minutes_def
        in_datetime_range_def Let_def)
qed

lemma apply_time_deviation_Inr:
  assumes "apply_time_deviation today base dev = Inr t"
  shows "t = nat ((int base + dev) mod 1440)" and "t < 1440" and "in_datetime_range today base dev"
proof -
  from assms show r: "in_datetime_range today base dev"
    unfolding apply_time_deviation_eq by (simp split: if_splits)
  with assms show t: "t = nat ((int base + dev) mod 1440)"
    unfolding apply_time_deviation_eq by simp
  show "t < 1440" unfolding t by (simp add: nat_less_iff)
qed

lemma in_datetime_range_small:
  assumes "1 < today" "today < max_ordinal" "base < 1440" "\<bar>dev\<bar> \<le> 1440"
  shows "in_datetime_range today base dev"
proof -
  let ?total = "today * 1440 + int base + dev"
  have d: "- 1 \<le> dev div 1440" "dev div 1440 \<le> 1"
    using zdiv_mono1 [of "- 1440" dev 1440] zdiv_mono1 [of dev 1440 1440] assms(4) by simp_all
  have "1 * 1440 \<le> ?total" using assms by simp
  then have l: "1 \<le> ?total div 1440"
    using zdiv_mono1 [of "1 * 1440" ?total 1440] by simp
  have "?total \<le> max_ordinal * 1440 + 1439" using assms by simp
  then have "?total div 1440 \<le> max_ordinal"
    using zdiv_mono1 [of ?total "max_ordinal * 1440 + 1439" 1440] by simp
  with l d show ?thesis by (simp add: in_datetime_range_def)
qed

lemma date_of_combine: "t < 1440 \<Longrightarrow> date_of (combine day t) = day"
  and time_of_combine: "t < 1440 \<Longrightarrow> time_of (combine day t) = t"
  by (simp_all add: date_of_def time_of_def combine_def)

lemma timestamp_combine_Inr: "timestamp_combine year day t = Inr ts \<Longrightarrow> ts = combine day t"
  by (simp add: timestamp_combine_def Let_def split: if_splits)

lemma date_add_days_Inr: "date_add_days year day k = Inr bd \<Longrightarrow> bd = day + k"
  by (simp add: date_add_days_def Let_def split: if_splits)

lemma tour_times_Inr:
  assumes "tour_times today year day base_leave base_ret leave_dev ret_dev = Inr (lt, rt)"
  obtains actual_leave actual_ret where
    "apply_time_deviation today base_leave leave_dev = Inr actual_leave"
    "apply_time_deviation today base_ret ret_dev = Inr actual_ret"
    "lt = combine day actual_leave"
    "rt = combine (if actual_ret > actual_leave then day else day + 1) actual_ret"
proof -
  from assms obtain al ar lt' bd rt' where
    1: "apply_time_deviation today base_leave leave_dev = Inr al"
    and 2: "apply_time_deviation today base_ret ret_dev = Inr ar"
    and 3: "timestamp_combine year day al = Inr lt'"
    and 4: "(if ar > al then Inr day else date_add_days year day 1) = Inr bd"
    and 5: "timestamp_combine year bd ar = Inr rt'"
    and 6: "lt = lt'" "rt = rt'"
    unfolding tour_times_def bind_err_eq_Inr by auto
  from 4 have "bd = (if ar > al then day else day + 1)"
    by (auto split: if_splits dest: date_add_days_Inr)
  with 3 5 6 have "lt = combine day al" "rt = combine (if ar > al then day else day + 1) ar"
    by (auto dest: timestamp_combine_Inr)
  with 1 2 show ?thesis by (rule that)
qed

lemma multiday_times_Inr:
  assumes "multiday_times today year day base_leave base_ret offset leave_dev ret_dev = Inr (lt, rt)"
  obtains actual_leave actual_ret where
    "apply_time_deviation today base_leave leave_dev = Inr actual_leave"
    "apply_time_deviation today base_ret ret_dev = Inr actual_ret"
    "lt = combine day actual_leave"
    "rt = combine (if offset \<noteq> 0 then day + offset
                  else if actual_ret > actual_leave then day else day + 1) actual_ret"
proof -
  from assms obtain al ar lt' bd rt' where
    1: "apply_time_deviation today base_leave leave_dev = Inr al"
    and 2: "apply_time_deviation today base_ret ret_dev = Inr ar"
    and 3: "timestamp_combine year day al = Inr lt'"
    and 4: "(if offset \<noteq> 0 then date_add_days year day offset
             else (if ar > al then Inr day else date_add_days year day 1)) = Inr bd"
    and 5: "timestamp_combine year bd ar = Inr rt'"
    and 6: "lt = lt'" "rt = rt'"
    unfolding multiday_times_def bind_err_eq_Inr by auto
  from 4 have "bd = (if offset \<noteq> 0 then day + offset else if ar > al then day else day + 1)"
    by (auto split: if_splits dest: date_add_days_Inr)
  with 3 5 6 have "lt = combine day al"
    "rt = combine (if offset \<noteq> 0 then day + offset else if ar > al then day else day + 1) ar"
    by (auto dest: timestamp_combine_Inr)
  with 1 2 show ?thesis by (rule that)
qed

subsection \<open>The calendar\<close>
















text \<open>
  Claim C10 does not hold as stated: \<^verbatim>\<open>apply_time_deviation\<close> is not total. On
  2026-11-04 (the day with the ordinal 739924) the offset \<open>-2147483648\<close> leads before the
  year 1, \<^verbatim>\<open>base_dt + td\<close> (line 225) raises \<^verbatim>\<open>OverflowError\<close>, and so does the day-trip
  simulator, whose calls of lines 462-463 are outside its \<^verbatim>\<open>try\<close>.
\<close>

theorem deviation_overflow_counterexample:
  "apply_time_deviation 739924 (hm 0 10) (- 2147483648) = Inl OverflowError \<and>
   tour_times 739924 2026 307 (hm 0 10) (hm 8 0) (- 2147483648) 0 = Inl OverflowError \<and>
   multiday_times 739924 2026 307 (hm 0 10) (hm 8 0) 2 (- 2147483648) 0 = Inl OverflowError"
  by (simp add: tour_times_def multiday_times_def apply_time_deviation_def
      timedelta_minutes_def datetime_add_minutes_def max_ordinal_def hm_def Let_def)

text \<open>
  Claim C10, amended: for every base time and every signed minute offset that
  \<^verbatim>\<open>timedelta\<close> accepts and that keeps today's date at the base time, moved by the offset,
  within the years 1 to 9999 of \<^verbatim>\<open>datetime\<close>, \<^verbatim>\<open>apply_time_deviation\<close> returns the time of
  day \<open>(base + offset) mod 24 h\<close> and tells nothing about the day having changed; for every
  other offset it raises \<^verbatim>\<open>OverflowError\<close>. Every offset of at most a day in either
  direction is of the first kind, unless today is the first or the last day of that
  calendar. Whenever a schedule simulator obtains its timestamps, the departure is this
  wrapped time on the unshifted calendar day, so the departure 00:10 with the offset -30
  becomes 23:40 of the same day, not of the day before.
\<close>

theorem deviation_wraps_within_calendar:
  "(in_datetime_range today base dev \<longrightarrow>
      apply_time_deviation today base dev = Inr (nat ((int base + dev) mod 1440)) \<and>
      nat ((int base + dev) mod 1440) < 1440) \<and>
   (\<not> in_datetime_range today base dev \<longrightarrow>
      apply_time_deviation today base dev = Inl OverflowError) \<and>
   (1 < today \<and> today < max_ordinal \<and> base < 1440 \<and> \<bar>dev\<bar> \<le> 1440 \<longrightarrow>
      in_datetime_range today base dev) \<and>
   (tour_times today year day base_leave base_ret leave_dev ret_dev = Inr (lt, rt) \<longrightarrow>
      apply_time_deviation today base_leave leave_dev =
        Inr (nat ((int base_leave + leave_dev) mod 1440)) \<and>
      lt = combine day (nat ((int base_leave + leave_dev) mod 1440)) \<and> date_of lt = day) \<and>
   (multiday_times today year day base_leave base_ret offset leave_dev ret_dev = Inr (lt', rt') \<longrightarrow>
      apply_time_deviation today base_leave leave_dev =
        Inr (nat ((int base_leave + leave_dev) mod 1440)) \<and>
      lt' = combine day (nat ((int base_leave + leave_dev) mod 1440)) \<and> date_of lt' = day) \<and>
   (tour_times today year day (hm 0 10) base_ret (- 30) ret_dev = Inr (lt, rt) \<longrightarrow>
      lt = combine day (hm 23 40)) \<and>
   (multiday_times today year day (hm 0 10) base_ret offset (- 30) ret_dev = Inr (lt', rt') \<longrightarrow>
      lt' = combine day (hm 23 40))"
proof (intro conjI impI)
  assume "in_datetime_range today base dev"
  then show "apply_time_deviation today base dev = Inr (nat ((int base + dev) mod 1440))"
    unfolding apply_time_deviation_eq by simp
  show "nat ((int base + dev) mod 1440) < 1440" by (simp add: nat_less_iff)
next
  assume "\<not> in_datetime_range today base dev"
  then show "apply_time_deviation today base dev = Inl OverflowError"
    unfolding apply_time_deviation_eq by simp
next
  assume "1 < today \<and> today < max_ordinal \<and> base < 1440 \<and> \<bar>dev\<bar> \<le> 1440"
  then show "in_datetime_range today base dev" by (intro in_datetime_range_small) simp_all
next
  assume "tour_times today year day base_leave base_ret leave_dev ret_dev = Inr (lt, rt)"
  then obtain al ar where a: "apply_time_deviation today base_leave leave_dev = Inr al"
    and lt: "lt = combine day al"
    by (rule tour_times_Inr)
  note al = apply_time_deviation_Inr(1,2) [OF a]
  from a al(1) show "apply_time_deviation today base_leave leave_dev =
        Inr (nat ((int base_leave + leave_dev) mod 1440))" by simp
  from lt al(1) show "lt = combine day (nat ((int base_leave + leave_dev) mod 1440))" by simp
  from al(2) show "date_of lt = day" unfolding lt by (rule date_of_combine)
next
  assume "multiday_times today year day base_leave base_ret offset leave_dev ret_dev = Inr (lt', rt')"
  then obtain al ar where a: "apply_time_deviation today base_leave leave_dev = Inr al"
    and lt: "lt' = combine day al"
    by (rule multiday_times_Inr)
  note al = apply_time_deviation_Inr(1,2) [OF a]
  from a al(1) show "apply_time_deviation today base_leave leave_dev =
        Inr (nat ((int base_leave + leave_dev) mod 1440))" by simp
  from lt al(1) show "lt' = combine day (nat ((int base_leave + leave_dev) mod 1440))" by simp
  from al(2) show "date_of lt' = day" unfolding lt by (rule date_of_combine)
next
  assume "tour_times today year day (hm 0 10) base_ret (- 30) ret_dev = Inr (lt, rt)"
  then obtain al ar where a: "apply_time_deviation today (hm 0 10) (- 30) = Inr al"
    and lt: "lt = combine day al"
    by (rule tour_times_Inr)
  from apply_time_deviation_Inr(1) [OF a] lt show "lt = combine day (hm 23 40)"
    by (simp add: hm_def)
next
  assume "multiday_times today year day (hm 0 10) base_ret offset (- 30) ret_dev = Inr (lt', rt')"
  then obtain al ar where a: "apply_time_deviation today (hm 0 10) (- 30) = Inr al"
    and lt: "lt' = combine day al"
    by (rule multiday_times_Inr)
  from apply_time_deviation_Inr(1) [OF a] lt show "lt' = combine day (hm 23 40)"
    by (simp add: hm_def)
qed

theorem deviation_wraps_within_calendar_witness:
  "in_datetime_range 739924 (hm 0 10) (- 30) \<and>
   apply_time_deviation 739924 (hm 0 10) (- 30) = Inr (hm 23 40) \<and>
   \<not> in_datetime_range 739924 (hm 0 10) (- 2147483648) \<and>
   tour_times 739924 2026 307 (hm 0 10) (hm 8 0) (- 30) 0 =
     Inr (combine 307 (hm 23 40), combine 308 (hm 8 0)) \<and>
   multiday_times 739924 2026 307 (hm 0 10) (hm 8 0) 2 (- 30) 0 =
     Inr (combine 307 (hm 23 40), combine 309 (hm 8 0)) \<and>
   date_of (combine 307 (hm 23 40)) = 307"
proof -
  note r = deviation_wraps_within_calendar [of 739924 "hm 0 10" "- 30" 2026 307 "hm 0 10" "hm 8 0"
      "- 30" 0 "combine 307 (hm 23 40)" "combine 308 (hm 8 0)" 2 "combine 307 (hm 23 40)"
      "combine 309 (hm 8 0)"]
  have s: "1 < (739924::int) \<and> (739924::int) < max_ordinal \<and> hm 0 10 < 1440 \<and>
      \<bar>- 30 :: int\<bar> \<le> 1440"
    by (simp add: max_ordinal_def hm_def)
  from r s have i: "in_datetime_range 739924 (hm 0 10) (- 30)" by blast
  with r have a: "apply_time_deviation 739924 (hm 0 10) (- 30) = Inr (hm 23 40)"
    by (simp add: hm_def)
  have n: "\<not> in_datetime_range 739924 (hm 0 10) (- 2147483648)"
    by (simp add: in_datetime_range_def hm_def)
  have b: "apply_time_deviation 739924 (hm 8 0) 0 = Inr (hm 8 0)"
    unfolding apply_time_deviation_eq by (simp add: in_datetime_range_def max_ordinal_def hm_def)
  have e: "epoch_minutes 2026 = 29453760"
    and o: "days_before_year 2026 = 739616"
    by (simp_all add: epoch_minutes_def days_before_year_def)
  have t: "tour_times 739924 2026 307 (hm 0 10) (hm 8 0) (- 30) 0 =
     Inr (combine 307 (hm 23 40), combine 308 (hm 8 0))"
    unfolding tour_times_def a b
    by (simp add: timestamp_combine_def date_add_days_def e o max_ordinal_def combine_def hm_def)
  have m: "multiday_times 739924 2026 307 (hm 0 10) (hm 8 0) 2 (- 30) 0 =
     Inr (combine 307 (hm 23 40), combine 309 (hm 8 0))"
    unfolding multiday_times_def a b
    by (simp add: timestamp_combine_def date_add_days_def e o max_ordinal_def combine_def hm_def)
  from r t have "date_of (combine 307 (hm 23 40)) = 307" by blast
  with i a n t m show ?thesis by blast
qed

end
